theory Spec2Isabelle
  imports Main "HOL-Library.Word" "HOL-Library.Signed_Division" "HOL-Library.Multiset"
begin

unbundle bit_operations_syntax

section \<open>Machine integers of the OpenCL device code\<close>

text \<open>
  \<^verbatim>\<open>opencl_gpusort.h\<close> computes with \<^verbatim>\<open>cl_int\<close> and \<^verbatim>\<open>cl_uint\<close>, both 32 bits wide. A value of
  either type is a \<open>32 word\<close>; \<open>+\<close>, \<open>-\<close>, \<open>*\<close> and the bitwise operations do not depend on
  the signedness, comparisons of \<^verbatim>\<open>cl_int\<close> values are the signed ones (\<open>\<le>s\<close>, \<open><s\<close>),
  and \<^verbatim>\<open>/\<close> and \<^verbatim>\<open>%\<close> on \<^verbatim>\<open>cl_int\<close> truncate towards zero.
\<close>

type_synonym cl_int = "32 word"
type_synonym cl_uint = "32 word"

definition cl_int_div :: "cl_int \<Rightarrow> cl_int \<Rightarrow> cl_int" where
  "cl_int_div a b = word_of_int (sint a sdiv sint b)"

definition cl_int_mod :: "cl_int \<Rightarrow> cl_int \<Rightarrow> cl_int" where
  "cl_int_mod a b = word_of_int (sint a smod sint b)"

text \<open>
  OpenCL C shifts a 32-bit value by the five least significant bits of the shift
  amount.
\<close>

definition cl_shl :: "cl_uint \<Rightarrow> cl_int \<Rightarrow> cl_uint" where
  "cl_shl a n = push_bit (unat (n AND 31)) a"

section \<open>The sort chunk\<close>

text \<open>
  The status codes \<^verbatim>\<open>StromError_*\<close> are declared outside this header. The header names
  \<^verbatim>\<open>StromError_Success\<close> and \<^verbatim>\<open>StromError_DataStoreNoSpace\<close>; every other code a comparator
  or a data access can raise is \<open>StromError_Fault\<close> here.
\<close>

datatype errcode = StromError_Success | StromError_DataStoreNoSpace | StromError_Fault

text \<open>
  \<^verbatim>\<open>kern_gpusort\<close> packs the parameter buffer, the column store \<^verbatim>\<open>kchunk\<close>, the status word
  and the toast buffer. The last column of \<^verbatim>\<open>kchunk\<close> is the index array
  (\<^verbatim>\<open>KERN_GPUSORT_RESULT_INDEX\<close>); the record keeps it apart from the other columns, whose
  layout is not declared in this header and which are a value of type \<open>'c\<close>.
\<close>

record ('c, 't) kern_gpusort =
  nrows :: cl_uint
  coldata :: 'c
  result_index :: "cl_int list"
  status :: errcode
  ktoast :: 't

text \<open>
  \<^verbatim>\<open>gpusort_comp\<close> is declared only ("to be generated by PG-Strom on the fly"): it is a
  parameter of everything below. It reads the error code through a pointer and may set
  it, so the model hands the code in and gets the new one back with the result.
\<close>

type_synonym ('c, 't) gpusort_comp =
  "errcode \<Rightarrow> 'c \<Rightarrow> 't \<Rightarrow> cl_int \<Rightarrow> 'c \<Rightarrow> 't \<Rightarrow> cl_int \<Rightarrow> errcode \<times> cl_int"

section \<open>In-chunk sorting: \<^verbatim>\<open>run_gpusort_single\<close> and \<^verbatim>\<open>gpusort_single\<close>\<close>

text \<open>
  The two indexes a lane works on:
  \<^verbatim>\<open>idx0 = (threadID / halfUnitSize) * unitsz + threadID % halfUnitSize;\<close>
  \<^verbatim>\<open>idx1 = (reversing ? ((idx0 & ~unitMask) | (~idx0 & unitMask)) : (idx0 + halfUnitSize));\<close>
  with \<^verbatim>\<open>halfUnitSize = unitsz / 2\<close> and \<^verbatim>\<open>unitMask = unitsz - 1\<close>.
\<close>

definition lane_idx0 :: "cl_uint \<Rightarrow> cl_int \<Rightarrow> cl_int" where
  "lane_idx0 unitsz threadID =
     (let halfUnitSize = unitsz div 2
      in cl_int_div threadID halfUnitSize * unitsz + cl_int_mod threadID halfUnitSize)"

definition lane_idx1 :: "bool \<Rightarrow> cl_uint \<Rightarrow> cl_int \<Rightarrow> cl_int" where
  "lane_idx1 reversing unitsz idx0 =
     (let halfUnitSize = unitsz div 2; unitMask = unitsz - 1
      in if reversing then (idx0 AND NOT unitMask) OR (NOT idx0 AND unitMask)
         else idx0 + halfUnitSize)"

text \<open>
  An index is inside the index array when it is not negative and below the array's
  length. A read or write outside is undefined in C; the model returns \<open>None\<close> there,
  and also for the division by \<^verbatim>\<open>halfUnitSize = 0\<close>.
\<close>

definition in_bounds :: "cl_int list \<Rightarrow> cl_int \<Rightarrow> bool" where
  "in_bounds xs i = (0 \<le>s i \<and> unat i < length xs)"

definition run_gpusort_single ::
  "('c, 't) gpusort_comp \<Rightarrow> bool \<Rightarrow> cl_uint \<Rightarrow> ('c, 't) kern_gpusort \<Rightarrow> cl_int \<Rightarrow> errcode
     \<Rightarrow> (('c, 't) kern_gpusort \<times> errcode) option" where
  "run_gpusort_single cmp reversing unitsz kg threadID errcode =
     (let results = result_index kg;
          idx0 = lane_idx0 unitsz threadID;
          idx1 = lane_idx1 reversing unitsz idx0
      in if unitsz div 2 = 0 then None
         else if nrows kg \<le>s idx1 then Some (kg, errcode)
         else if in_bounds results idx0 \<and> in_bounds results idx1 then
           (let pos0 = results ! unat idx0;
                pos1 = results ! unat idx1;
                (errcode', rv) = cmp errcode (coldata kg) (ktoast kg) pos0
                                   (coldata kg) (ktoast kg) pos1
            in if 0 <s rv
               then Some (kg\<lparr>result_index := results[unat idx0 := pos1, unat idx1 := pos0]\<rparr>,
                          errcode')
               else Some (kg, errcode'))
         else None)"

text \<open>
  The kernel: the sign of \<^verbatim>\<open>bitonic_unitsz\<close> is the direction flag, its absolute value the
  binary logarithm of the unit size. \<^verbatim>\<open>errcode\<close> is a local variable of the kernel; nothing
  is done with it after \<^verbatim>\<open>run_gpusort_single\<close> returns.
\<close>

definition gpusort_single ::
  "('c, 't) gpusort_comp \<Rightarrow> cl_int \<Rightarrow> ('c, 't) kern_gpusort \<Rightarrow> cl_int
     \<Rightarrow> ('c, 't) kern_gpusort option" where
  "gpusort_single cmp bitonic_unitsz kgsort threadID =
     (let reversing = (bitonic_unitsz <s 0);
          unitsz = (if bitonic_unitsz <s 0 then cl_shl 1 (- bitonic_unitsz)
                    else cl_shl 1 bitonic_unitsz);
          errcode = StromError_Success
      in map_option fst (run_gpusort_single cmp reversing unitsz kgsort threadID errcode))"

text \<open>
  One pass is one launch of the kernel: the lanes with thread ids \<open>0, \<dots>, G - 1\<close>, where \<open>G\<close>
  is the global work size the host chooses. The lanes of a pass work on disjoint pairs of
  index entries, so the model runs them one after the other.
\<close>

fun gpusort_single_lanes ::
  "('c, 't) gpusort_comp \<Rightarrow> cl_int \<Rightarrow> nat list \<Rightarrow> ('c, 't) kern_gpusort
     \<Rightarrow> ('c, 't) kern_gpusort option" where
  "gpusort_single_lanes cmp b [] kg = Some kg"
| "gpusort_single_lanes cmp b (t # ts) kg =
     (case gpusort_single cmp b kg (of_nat t) of
        None \<Rightarrow> None
      | Some kg' \<Rightarrow> gpusort_single_lanes cmp b ts kg')"

definition gpusort_single_pass ::
  "('c, 't) gpusort_comp \<Rightarrow> cl_int \<Rightarrow> nat \<Rightarrow> ('c, 't) kern_gpusort
     \<Rightarrow> ('c, 't) kern_gpusort option" where
  "gpusort_single_pass cmp b G kg = gpusort_single_lanes cmp b [0..<G] kg"

section \<open>The passes of an in-chunk sort\<close>

text \<open>
  Modelled from the spec: the host code that launches \<^verbatim>\<open>gpusort_single\<close> is not in this
  header. The spec describes "a bitonic sorting network over the padded (power-of-two)
  index array", each pass "parameterized by a unit size (power of two) and a direction
  flag", "completion after the canonical \<open>log2(N) * (log2(N)+1) / 2\<close> passes", and "one
  independent lane per index-array slot". For an index array of \<open>2 ^ K\<close> slots the passes
  are, for each \<open>i = 1, \<dots>, K\<close>, one reversing pass of unit size \<open>2 ^ i\<close> followed by the passes
  of unit sizes \<open>2 ^ (i - 1), \<dots>, 2\<close> that do not reverse; each pass runs \<open>2 ^ K\<close> lanes, and a
  pass starts when the one before has returned.
\<close>

fun fwd_schedule :: "nat \<Rightarrow> cl_int list" where
  "fwd_schedule 0 = []"
| "fwd_schedule (Suc j) = word_of_nat (Suc j) # fwd_schedule j"

definition stage_schedule :: "nat \<Rightarrow> cl_int list" where
  "stage_schedule j = (- word_of_nat (Suc j)) # fwd_schedule j"

fun bitonic_schedule :: "nat \<Rightarrow> cl_int list" where
  "bitonic_schedule 0 = []"
| "bitonic_schedule (Suc K) = bitonic_schedule K @ stage_schedule K"

fun gpusort_single_passes ::
  "('c, 't) gpusort_comp \<Rightarrow> nat \<Rightarrow> cl_int list \<Rightarrow> ('c, 't) kern_gpusort
     \<Rightarrow> ('c, 't) kern_gpusort option" where
  "gpusort_single_passes cmp G [] kg = Some kg"
| "gpusort_single_passes cmp G (b # bs) kg =
     (case gpusort_single_pass cmp b G kg of
        None \<Rightarrow> None
      | Some kg' \<Rightarrow> gpusort_single_passes cmp G bs kg')"

definition bitonic_sort ::
  "('c, 't) gpusort_comp \<Rightarrow> nat \<Rightarrow> ('c, 't) kern_gpusort \<Rightarrow> ('c, 't) kern_gpusort option" where
  "bitonic_sort cmp K kg = gpusort_single_passes cmp (2 ^ K) (bitonic_schedule K) kg"

section \<open>Loading a chunk: \<^verbatim>\<open>gpusort_setup_chunk_rs\<close>\<close>

text \<open>
  The kernel is modelled for one work-group, the lanes that share the \<^verbatim>\<open>__local\<close> variables
  \<^verbatim>\<open>kcs_offset\<close> and \<^verbatim>\<open>kcs_nitems\<close>. \<^verbatim>\<open>size_t\<close> is 64 bits wide here. The source writes
  \<^verbatim>\<open>krs_nrows\<close> once for \<^verbatim>\<open>krs->nrows\<close> and \<^verbatim>\<open>grecid\<close> once for \<^verbatim>\<open>growid\<close>; the model reads each as
  the name it stands for.

  The helpers the kernel calls are declared outside this header; they are parameters:
  what \<^verbatim>\<open>pg_bytea_param\<close> does to \<^verbatim>\<open>errcode\<close>, what \<^verbatim>\<open>kern_row_to_column\<close> does to \<^verbatim>\<open>errcode\<close>, the
  columns and the toast buffer for one lane, the store of the record id through
  \<^verbatim>\<open>kern_get_datum\<close>, and what \<^verbatim>\<open>kern_writeback_error_status\<close> makes of the status word and the
  lanes' error codes.
\<close>

type_synonym size_t = "64 word"

record ('c, 't, 'r) setup_helpers =
  pg_bytea_param :: "errcode \<Rightarrow> errcode"
  kern_row_to_column ::
    "errcode \<Rightarrow> 'r \<Rightarrow> 'c \<Rightarrow> 't \<Rightarrow> size_t \<Rightarrow> size_t \<Rightarrow> size_t \<Rightarrow> size_t \<Rightarrow> errcode \<times> 'c \<times> 't"
  put_growid :: "'c \<Rightarrow> cl_uint \<Rightarrow> 64 word \<Rightarrow> 'c"
  kern_writeback_error_status :: "errcode \<Rightarrow> errcode list \<Rightarrow> errcode"

text \<open>
  The OpenCL built-in \<^verbatim>\<open>atomic_and(p, val)\<close> stores \<^verbatim>\<open>*p & val\<close> at \<^verbatim>\<open>p\<close> and returns the old
  value: the pair is (returned value, stored value).
\<close>

definition atomic_and :: "cl_uint \<Rightarrow> cl_uint \<Rightarrow> cl_uint \<times> cl_uint" where
  "atomic_and p val = (p, p AND val)"

text \<open>
  Lane 0 of the work-group reserves the slots. \<^verbatim>\<open>kcs_offset\<close> is read in the second branch
  before anything has been stored in it: \<open>kcs_offset0\<close> is that value. The result is
  (\<^verbatim>\<open>kcs_offset\<close>, \<^verbatim>\<open>kcs_nitems\<close>, the new \<^verbatim>\<open>kcs->nrows\<close>).
\<close>

definition setup_chunk_reserve ::
  "size_t \<Rightarrow> size_t \<Rightarrow> size_t \<Rightarrow> cl_uint \<Rightarrow> cl_uint \<Rightarrow> size_t \<times> size_t \<times> cl_uint" where
  "setup_chunk_reserve global_id local_size kcs_offset0 krs_nrows kcs_nrows =
     (let kcs_nitems = (if global_id + local_size < ucast krs_nrows then local_size
                        else if global_id < ucast krs_nrows then ucast krs_nrows - kcs_offset0
                        else 0);
          (old, new) = atomic_and kcs_nrows (ucast kcs_nitems)
      in (ucast old, kcs_nitems, new))"

text \<open>
  One lane after the barrier. Its \<^verbatim>\<open>errcode\<close> starts as
  \<^verbatim>\<open>StromError_DataStoreNoSpace; //StromError_Success;\<close>.
\<close>

definition setup_chunk_lane ::
  "('c, 't, 'r) setup_helpers \<Rightarrow> cl_uint \<Rightarrow> 'r \<Rightarrow> size_t \<Rightarrow> size_t \<Rightarrow> size_t \<Rightarrow> size_t
     \<Rightarrow> ('c, 't) kern_gpusort \<Rightarrow> (('c, 't) kern_gpusort \<times> errcode) option" where
  "setup_chunk_lane H rcs_gstore_num krs kcs_offset kcs_nitems global_id local_id kg =
     (let errcode = StromError_DataStoreNoSpace;
          errcode = pg_bytea_param H errcode;
          (errcode, c, ts) = kern_row_to_column H errcode krs (coldata kg) (ktoast kg)
                               kcs_offset kcs_nitems global_id local_id;
          kg = kg\<lparr>coldata := c, ktoast := ts\<rparr>
      in if local_id < kcs_nitems then
           (let rindex = (ucast (kcs_offset + local_id) :: cl_uint);
                growid = (push_bit 32 (ucast rcs_gstore_num) OR global_id :: 64 word)
            in if unat rindex < length (result_index kg)
               then Some (kg\<lparr>coldata := put_growid H c rindex growid,
                              result_index := (result_index kg)[unat rindex := rindex]\<rparr>, errcode)
               else None)
         else Some (kg, errcode))"

fun setup_chunk_lanes ::
  "('c, 't, 'r) setup_helpers \<Rightarrow> cl_uint \<Rightarrow> 'r \<Rightarrow> size_t \<Rightarrow> size_t \<Rightarrow> size_t \<Rightarrow> nat list
     \<Rightarrow> ('c, 't) kern_gpusort \<Rightarrow> (('c, 't) kern_gpusort \<times> errcode list) option" where
  "setup_chunk_lanes H g krs off n gid0 [] kg = Some (kg, [])"
| "setup_chunk_lanes H g krs off n gid0 (l # ls) kg =
     (case setup_chunk_lane H g krs off n (gid0 + of_nat l) (of_nat l) kg of
        None \<Rightarrow> None
      | Some (kg', e) \<Rightarrow>
          (case setup_chunk_lanes H g krs off n gid0 ls kg' of
             None \<Rightarrow> None
           | Some (kg'', es) \<Rightarrow> Some (kg'', e # es)))"

definition gpusort_setup_chunk_rs ::
  "('c, 't, 'r) setup_helpers \<Rightarrow> cl_uint \<Rightarrow> size_t \<Rightarrow> nat \<Rightarrow> size_t \<Rightarrow> 'r \<Rightarrow> cl_uint
     \<Rightarrow> ('c, 't) kern_gpusort \<Rightarrow> ('c, 't) kern_gpusort option" where
  "gpusort_setup_chunk_rs H rcs_gstore_num gid0 local_size kcs_offset0 krs krs_nrows kgpusort =
     (let (kcs_offset, kcs_nitems, new_nrows) =
            setup_chunk_reserve gid0 (of_nat local_size) kcs_offset0 krs_nrows (nrows kgpusort)
      in case setup_chunk_lanes H rcs_gstore_num krs kcs_offset kcs_nitems gid0 [0..<local_size]
                (kgpusort\<lparr>nrows := new_nrows\<rparr>) of
           None \<Rightarrow> None
         | Some (kg, es) \<Rightarrow>
             Some (kg\<lparr>status := kern_writeback_error_status H (status kg) es\<rparr>))"

section \<open>Inter-chunk merging: \<^verbatim>\<open>gpusort_set_record\<close> and \<^verbatim>\<open>run_gpusort_multi\<close>\<close>

text \<open>
  The merge routines stand between \<^verbatim>\<open>#if 0\<close> and \<^verbatim>\<open>#endif\<close>. The model reads
  \<^verbatim>\<open>threaadID\<close> as \<^verbatim>\<open>threadID\<close>, \<^verbatim>\<open>x_result\<close> and \<^verbatim>\<open>y_result\<close> as \<^verbatim>\<open>x_results\<close> and \<^verbatim>\<open>y_results\<close>,
  \<^verbatim>\<open>*result0\<close> and \<^verbatim>\<open>*result1\<close> as \<^verbatim>\<open>*results0\<close> and \<^verbatim>\<open>*results1\<close>, the two
  \<^verbatim>\<open>(c) : a : b\<close> as \<^verbatim>\<open>(c) ? a : b\<close>, and \<^verbatim>\<open>chunkDst\<close> in \<^verbatim>\<open>gpusort_set_record\<close> as the
  destination the routine selects further down (\<^verbatim>\<open>(posDst < nrowsDst0) ? chunkDst0 : chunkDst1\<close>).

  \<^verbatim>\<open>N\<close> is declared in \<^verbatim>\<open>run_gpusort_multi\<close> and never assigned: the loop after it,
  \<^verbatim>\<open>for(int i=1; i<x_nrows+y_nrows; i<<=1) { }\<close>, has an empty body. The value the routine
  reads is a parameter \<open>N\<close> of the model.

  \<^verbatim>\<open>kern_column_to_column\<close> is declared outside this header and is a parameter: from the error
  code, the destination's columns and toast buffer and slot, and the source's, it gives
  the new error code and the destination's new columns and toast buffer.
\<close>

record ('c, 't) merge_chunks =
  x_chunk :: "('c, 't) kern_gpusort"
  y_chunk :: "('c, 't) kern_gpusort"
  z_chunk0 :: "('c, 't) kern_gpusort"
  z_chunk1 :: "('c, 't) kern_gpusort"

type_synonym ('c, 't) kern_column_to_column =
  "errcode \<Rightarrow> 'c \<Rightarrow> 't \<Rightarrow> cl_int \<Rightarrow> 'c \<Rightarrow> 't \<Rightarrow> cl_int \<Rightarrow> errcode \<times> 'c \<times> 't"

text \<open>
  \<^verbatim>\<open>(i < N2) ? &x_results[i] : &y_results[i - N2]\<close>: slot \<open>i\<close> of the virtual sequence, read
  and written.
\<close>

definition vread :: "cl_int \<Rightarrow> cl_int list \<Rightarrow> cl_int list \<Rightarrow> cl_int \<Rightarrow> cl_int option" where
  "vread N2 xr yr i =
     (if i <s N2 then (if in_bounds xr i then Some (xr ! unat i) else None)
      else (if in_bounds yr (i - N2) then Some (yr ! unat (i - N2)) else None))"

definition vwrite ::
  "cl_int \<Rightarrow> ('c, 't) merge_chunks \<Rightarrow> cl_int \<Rightarrow> cl_int \<Rightarrow> ('c, 't) merge_chunks option" where
  "vwrite N2 st i v =
     (if i <s N2
      then (if in_bounds (result_index (x_chunk st)) i
            then Some (st\<lparr>x_chunk := (x_chunk st)
                        \<lparr>result_index := (result_index (x_chunk st))[unat i := v]\<rparr>\<rparr>)
            else None)
      else (if in_bounds (result_index (y_chunk st)) (i - N2)
            then Some (st\<lparr>y_chunk := (y_chunk st)
                        \<lparr>result_index := (result_index (y_chunk st))[unat (i - N2) := v]\<rparr>\<rparr>)
            else None))"

definition gpusort_set_record ::
  "('c, 't) kern_column_to_column \<Rightarrow> cl_int \<Rightarrow> cl_int \<Rightarrow> cl_int \<Rightarrow> ('c, 't) merge_chunks \<Rightarrow> errcode
     \<Rightarrow> (('c, 't) merge_chunks \<times> errcode) option" where
  "gpusort_set_record c2c index N nrowsDst0 st errcode =
     (let N2 = cl_int_div N 2;
          result0 = result_index (x_chunk st);
          result1 = result_index (y_chunk st);
          posDst = index
      in case vread N2 result0 result1 index of
           None \<Rightarrow> None
         | Some posSrc \<Rightarrow>
            (let chunkPosDst = (if posDst <s nrowsDst0 then posDst else posDst - nrowsDst0);
                 chunkPosSrc = (if posSrc <s N2 then posSrc else posSrc - N2);
                 chunkDst = (if posDst <s nrowsDst0 then z_chunk0 st else z_chunk1 st)
             in case (if chunkPosDst = N2 - 1 \<and> posSrc <s N then Some (chunkDst\<lparr>nrows := N2\<rparr>)
                      else if N \<le>s posSrc then
                        (if 0 <s chunkPosDst then
                           (case vread N2 result0 result1 (index - 1) of
                              None \<Rightarrow> None
                            | Some posPrev \<Rightarrow>
                                if N \<le>s posPrev then Some chunkDst
                                else Some (chunkDst\<lparr>nrows := chunkPosDst\<rparr>))
                         else Some (chunkDst\<lparr>nrows := chunkPosDst\<rparr>))
                      else Some chunkDst) of
                  None \<Rightarrow> None
                | Some chunkDst \<Rightarrow>
                    if in_bounds (result_index chunkDst) chunkPosDst then
                      (let chunkDst = chunkDst\<lparr>result_index := (result_index chunkDst)
                                        [unat chunkPosDst := (if posSrc <s N then chunkPosDst else N)]\<rparr>;
                           chunkSrc = (if posSrc <s N2 then x_chunk st else y_chunk st);
                           (errcode, c, ts) =
                              (if posSrc <s N
                               then c2c errcode (coldata chunkDst) (ktoast chunkDst) chunkPosDst
                                      (coldata chunkSrc) (ktoast chunkSrc) chunkPosSrc
                               else (errcode, coldata chunkDst, ktoast chunkDst));
                           chunkDst = chunkDst\<lparr>coldata := c, ktoast := ts\<rparr>
                       in Some (if posDst <s nrowsDst0 then st\<lparr>z_chunk0 := chunkDst\<rparr>
                                else st\<lparr>z_chunk1 := chunkDst\<rparr>, errcode))
                    else None))"

text \<open>
  \<^verbatim>\<open>run_gpusort_multi\<close> in its three parts: "Re-numbering the index at first times", the
  compare and swap, and "Update output chunk at last kernel".
\<close>

definition multi_renumber ::
  "cl_int \<Rightarrow> cl_int \<Rightarrow> cl_int \<Rightarrow> ('c, 't) merge_chunks \<Rightarrow> ('c, 't) merge_chunks option" where
  "multi_renumber N threadID idx1 st =
     (let N2 = cl_int_div N 2;
          x_results = result_index (x_chunk st);
          y_results = result_index (y_chunk st)
      in case (if nrows (x_chunk st) \<le>s threadID
               then (if in_bounds x_results threadID then Some (x_results[unat threadID := N]) else None)
               else Some x_results) of
           None \<Rightarrow> None
         | Some xr \<Rightarrow>
             if in_bounds y_results (idx1 - N2)
             then Some (st\<lparr>x_chunk := (x_chunk st)\<lparr>result_index := xr\<rparr>,
                           y_chunk := (y_chunk st)\<lparr>result_index := y_results[unat (idx1 - N2) :=
                              (if idx1 - N2 <s nrows (y_chunk st)
                               then y_results ! unat (idx1 - N2) + N2 else N)]\<rparr>\<rparr>)
             else None)"

definition multi_compare_swap ::
  "('c, 't) gpusort_comp \<Rightarrow> cl_int \<Rightarrow> cl_int \<Rightarrow> cl_int \<Rightarrow> ('c, 't) merge_chunks \<Rightarrow> errcode
     \<Rightarrow> (('c, 't) merge_chunks \<times> errcode) option" where
  "multi_compare_swap cmp N idx0 idx1 st errcode =
     (let N2 = cl_int_div N 2;
          x_results = result_index (x_chunk st);
          y_results = result_index (y_chunk st)
      in case (vread N2 x_results y_results idx0, vread N2 x_results y_results idx1) of
           (Some pos0, Some pos1) \<Rightarrow>
             if N \<le>s pos1 then Some (st, errcode)
             else if N \<le>s pos0 then
               (case vwrite N2 st idx0 pos1 of
                  None \<Rightarrow> None
                | Some st' \<Rightarrow> map_option (\<lambda>s. (s, errcode)) (vwrite N2 st' idx1 pos0))
             else
               (let chunk0 = (if pos0 <s N2 then x_chunk st else y_chunk st);
                    chunk1 = (if pos1 <s N2 then x_chunk st else y_chunk st);
                    chkPos0 = (if pos0 <s N2 then pos0 else pos0 - N2);
                    chkPos1 = (if pos1 <s N2 then pos1 else pos1 - N2);
                    (errcode', rv) = cmp errcode (coldata chunk0) (ktoast chunk0) chkPos0
                                       (coldata chunk1) (ktoast chunk1) chkPos1
                in if 0 <s rv then
                     (case vwrite N2 st idx0 pos1 of
                        None \<Rightarrow> None
                      | Some st' \<Rightarrow> map_option (\<lambda>s. (s, errcode')) (vwrite N2 st' idx1 pos0))
                   else Some (st, errcode'))
         | _ \<Rightarrow> None)"

definition run_gpusort_multi ::
  "('c, 't) gpusort_comp \<Rightarrow> ('c, 't) kern_column_to_column \<Rightarrow> bool \<Rightarrow> cl_uint \<Rightarrow> cl_int
     \<Rightarrow> ('c, 't) merge_chunks \<Rightarrow> cl_int \<Rightarrow> errcode \<Rightarrow> (('c, 't) merge_chunks \<times> errcode) option" where
  "run_gpusort_multi cmp c2c reversing unitsz N st threadID errcode =
     (let idx0 = lane_idx0 unitsz threadID;
          idx1 = lane_idx1 reversing unitsz idx0;
          N2 = cl_int_div N 2
      in if unitsz div 2 = 0 then None
         else if N2 \<le>s threadID then Some (st, errcode)
         else case (if reversing then multi_renumber N threadID idx1 st else Some st) of
                None \<Rightarrow> None
              | Some st1 \<Rightarrow>
                 (case multi_compare_swap cmp N idx0 idx1 st1 errcode of
                    None \<Rightarrow> None
                  | Some (st2, errcode2) \<Rightarrow>
                      if unitsz = 2 then
                        (case gpusort_set_record c2c idx0 N N2 st2 errcode2 of
                           None \<Rightarrow> None
                         | Some (st3, errcode3) \<Rightarrow> gpusort_set_record c2c idx1 N N2 st3 errcode3)
                      else Some (st2, errcode2)))"

definition gpusort_multi ::
  "('c, 't) gpusort_comp \<Rightarrow> ('c, 't) kern_column_to_column \<Rightarrow> cl_int \<Rightarrow> cl_int
     \<Rightarrow> ('c, 't) merge_chunks \<Rightarrow> cl_int \<Rightarrow> ('c, 't) merge_chunks option" where
  "gpusort_multi cmp c2c mergesort_unitsz N st threadID =
     (let reversing = (mergesort_unitsz <s 0);
          unitsz = (if mergesort_unitsz <s 0 then cl_shl 1 (- mergesort_unitsz)
                    else cl_shl 1 mergesort_unitsz);
          errcode = StromError_Success
      in map_option fst (run_gpusort_multi cmp c2c reversing unitsz N st threadID errcode))"

text \<open>
  One pass is the lanes of one launch, one after the other; a merge is a list of passes,
  each given by its \<^verbatim>\<open>mergesort_unitsz\<close>.
\<close>

fun gpusort_multi_lanes ::
  "('c, 't) gpusort_comp \<Rightarrow> ('c, 't) kern_column_to_column \<Rightarrow> cl_int \<Rightarrow> cl_int \<Rightarrow> nat list
     \<Rightarrow> ('c, 't) merge_chunks \<Rightarrow> ('c, 't) merge_chunks option" where
  "gpusort_multi_lanes cmp c2c b N [] st = Some st"
| "gpusort_multi_lanes cmp c2c b N (t # ts) st =
     (case gpusort_multi cmp c2c b N st (of_nat t) of
        None \<Rightarrow> None
      | Some st' \<Rightarrow> gpusort_multi_lanes cmp c2c b N ts st')"

fun gpusort_multi_passes ::
  "('c, 't) gpusort_comp \<Rightarrow> ('c, 't) kern_column_to_column \<Rightarrow> cl_int \<Rightarrow> nat \<Rightarrow> cl_int list
     \<Rightarrow> ('c, 't) merge_chunks \<Rightarrow> ('c, 't) merge_chunks option" where
  "gpusort_multi_passes cmp c2c N G [] st = Some st"
| "gpusort_multi_passes cmp c2c N G (b # bs) st =
     (case gpusort_multi_lanes cmp c2c b N [0..<G] st of
        None \<Rightarrow> None
      | Some st' \<Rightarrow> gpusort_multi_passes cmp c2c N G bs st')"

text \<open>
  The lanes of one launch run concurrently, and nothing in the kernel orders the stores of
  one lane against the loads of another. In a pass a lane loads and stores its own two
  slots of the virtual sequence, with one exception: in the last pass
  \<^verbatim>\<open>gpusort_set_record\<close> also loads slot \<^verbatim>\<open>index - 1\<close> (\<^verbatim>\<open>posPrev\<close>), which for \<^verbatim>\<open>index = idx0\<close> is a
  slot of the lane before. All loads of \<^verbatim>\<open>gpusort_set_record\<close> from the index arrays come
  before its stores, so the routine is its loads, which give \<^verbatim>\<open>posSrc\<close> and the row count the
  "set nrows" block is about to store (if any), followed by its stores.
\<close>

definition gpusort_set_record_reads ::
  "cl_int \<Rightarrow> cl_int \<Rightarrow> cl_int \<Rightarrow> ('c, 't) merge_chunks \<Rightarrow> (cl_int \<times> cl_int option) option" where
  "gpusort_set_record_reads index N nrowsDst0 st =
     (let N2 = cl_int_div N 2;
          result0 = result_index (x_chunk st);
          result1 = result_index (y_chunk st);
          posDst = index
      in case vread N2 result0 result1 index of
           None \<Rightarrow> None
         | Some posSrc \<Rightarrow>
            (let chunkPosDst = (if posDst <s nrowsDst0 then posDst else posDst - nrowsDst0)
             in if chunkPosDst = N2 - 1 \<and> posSrc <s N then Some (posSrc, Some N2)
                else if N \<le>s posSrc then
                  (if 0 <s chunkPosDst then
                     (case vread N2 result0 result1 (index - 1) of
                        None \<Rightarrow> None
                      | Some posPrev \<Rightarrow>
                          if N \<le>s posPrev then Some (posSrc, None)
                          else Some (posSrc, Some chunkPosDst))
                   else Some (posSrc, Some chunkPosDst))
                else Some (posSrc, None)))"

definition gpusort_set_record_writes ::
  "('c, 't) kern_column_to_column \<Rightarrow> cl_int \<Rightarrow> cl_int \<Rightarrow> cl_int \<Rightarrow> cl_int \<times> cl_int option
     \<Rightarrow> ('c, 't) merge_chunks \<Rightarrow> errcode \<Rightarrow> (('c, 't) merge_chunks \<times> errcode) option" where
  "gpusort_set_record_writes c2c index N nrowsDst0 rd st errcode =
     (let N2 = cl_int_div N 2;
          posDst = index;
          posSrc = fst rd;
          chunkPosDst = (if posDst <s nrowsDst0 then posDst else posDst - nrowsDst0);
          chunkPosSrc = (if posSrc <s N2 then posSrc else posSrc - N2);
          chunkDst = (if posDst <s nrowsDst0 then z_chunk0 st else z_chunk1 st);
          chunkDst = (case snd rd of None \<Rightarrow> chunkDst | Some n \<Rightarrow> chunkDst\<lparr>nrows := n\<rparr>)
      in if in_bounds (result_index chunkDst) chunkPosDst then
           (let chunkDst = chunkDst\<lparr>result_index := (result_index chunkDst)
                             [unat chunkPosDst := (if posSrc <s N then chunkPosDst else N)]\<rparr>;
                chunkSrc = (if posSrc <s N2 then x_chunk st else y_chunk st);
                (errcode, c, ts) =
                   (if posSrc <s N
                    then c2c errcode (coldata chunkDst) (ktoast chunkDst) chunkPosDst
                           (coldata chunkSrc) (ktoast chunkSrc) chunkPosSrc
                    else (errcode, coldata chunkDst, ktoast chunkDst));
                chunkDst = chunkDst\<lparr>coldata := c, ktoast := ts\<rparr>
            in Some (if posDst <s nrowsDst0 then st\<lparr>z_chunk0 := chunkDst\<rparr>
                     else st\<lparr>z_chunk1 := chunkDst\<rparr>, errcode))
         else None)"

text \<open>
  A lane up to and including the loads of its first \<^verbatim>\<open>gpusort_set_record\<close>, and the rest of
  the lane from there.
\<close>

definition run_gpusort_multi_head ::
  "('c, 't) gpusort_comp \<Rightarrow> bool \<Rightarrow> cl_uint \<Rightarrow> cl_int \<Rightarrow> ('c, 't) merge_chunks \<Rightarrow> cl_int \<Rightarrow> errcode
     \<Rightarrow> (('c, 't) merge_chunks \<times> errcode \<times> (cl_int \<times> cl_int option) option) option" where
  "run_gpusort_multi_head cmp reversing unitsz N st threadID errcode =
     (let idx0 = lane_idx0 unitsz threadID;
          idx1 = lane_idx1 reversing unitsz idx0;
          N2 = cl_int_div N 2
      in if unitsz div 2 = 0 then None
         else if N2 \<le>s threadID then Some (st, errcode, None)
         else case (if reversing then multi_renumber N threadID idx1 st else Some st) of
                None \<Rightarrow> None
              | Some st1 \<Rightarrow>
                 (case multi_compare_swap cmp N idx0 idx1 st1 errcode of
                    None \<Rightarrow> None
                  | Some (st2, errcode2) \<Rightarrow>
                      if unitsz = 2 then
                        (case gpusort_set_record_reads idx0 N N2 st2 of
                           None \<Rightarrow> None
                         | Some rd \<Rightarrow> Some (st2, errcode2, Some rd))
                      else Some (st2, errcode2, None)))"

definition run_gpusort_multi_tail ::
  "('c, 't) kern_column_to_column \<Rightarrow> bool \<Rightarrow> cl_uint \<Rightarrow> cl_int \<Rightarrow> (cl_int \<times> cl_int option) option
     \<Rightarrow> ('c, 't) merge_chunks \<Rightarrow> cl_int \<Rightarrow> errcode \<Rightarrow> (('c, 't) merge_chunks \<times> errcode) option" where
  "run_gpusort_multi_tail c2c reversing unitsz N rd st threadID errcode =
     (let idx0 = lane_idx0 unitsz threadID;
          idx1 = lane_idx1 reversing unitsz idx0;
          N2 = cl_int_div N 2
      in case rd of
           None \<Rightarrow> Some (st, errcode)
         | Some rd0 \<Rightarrow>
             (case gpusort_set_record_writes c2c idx0 N N2 rd0 st errcode of
                None \<Rightarrow> None
              | Some (st3, errcode3) \<Rightarrow> gpusort_set_record c2c idx1 N N2 st3 errcode3))"

text \<open>
  Two lanes of one launch where lane \<open>b\<close> runs up to the loads of its first
  \<^verbatim>\<open>gpusort_set_record\<close>, then lane \<open>a\<close> runs from start to end, then lane \<open>b\<close> runs to its end.
\<close>

definition gpusort_multi_overtaken ::
  "('c, 't) gpusort_comp \<Rightarrow> ('c, 't) kern_column_to_column \<Rightarrow> cl_int \<Rightarrow> cl_int
     \<Rightarrow> ('c, 't) merge_chunks \<Rightarrow> cl_int \<Rightarrow> cl_int \<Rightarrow> ('c, 't) merge_chunks option" where
  "gpusort_multi_overtaken cmp c2c mergesort_unitsz N st threadID_a threadID_b =
     (let reversing = (mergesort_unitsz <s 0);
          unitsz = (if mergesort_unitsz <s 0 then cl_shl 1 (- mergesort_unitsz)
                    else cl_shl 1 mergesort_unitsz);
          errcode = StromError_Success
      in case run_gpusort_multi_head cmp reversing unitsz N st threadID_b errcode of
           None \<Rightarrow> None
         | Some (st1, errcode1, rd) \<Rightarrow>
             (case gpusort_multi cmp c2c mergesort_unitsz N st1 threadID_a of
                None \<Rightarrow> None
              | Some st2 \<Rightarrow>
                  map_option fst (run_gpusort_multi_tail c2c reversing unitsz N rd st2 threadID_b errcode1)))"

text \<open>
  The number of non-sentinel positions in each half of the virtual sequence: the positions
  whose entry is below \<^verbatim>\<open>N\<close>, for which \<^verbatim>\<open>gpusort_set_record\<close> copies a row, among the first \<^verbatim>\<open>N2\<close>
  positions (copied to \<^verbatim>\<open>z_chunk0\<close>) and among the next \<^verbatim>\<open>N2\<close> (copied to \<^verbatim>\<open>z_chunk1\<close>).
\<close>

definition rows_mapped :: "cl_int \<Rightarrow> ('c, 't) merge_chunks \<Rightarrow> nat \<times> nat" where
  "rows_mapped N st =
     (let N2 = unat (cl_int_div N 2)
      in (length (filter (\<lambda>posSrc. posSrc <s N) (take N2 (result_index (x_chunk st)))),
          length (filter (\<lambda>posSrc. posSrc <s N) (take N2 (result_index (y_chunk st))))))"

section \<open>The index pair of a lane, on natural numbers\<close>

text \<open>
  The pair of a lane as arithmetic on natural numbers, for a unit size \<open>u\<close>: the lane with
  thread id \<open>t\<close> owns \<open>idx0 = (t div (u div 2)) * u + t mod (u div 2)\<close>; its partner keeps the
  part of \<open>idx0\<close> above the unit and complements the part inside the unit when reversing,
  and is \<open>idx0 + u div 2\<close> otherwise.
\<close>

definition idx0_nat :: "nat \<Rightarrow> nat \<Rightarrow> nat" where
  "idx0_nat u t = (t div (u div 2)) * u + t mod (u div 2)"

definition idx1_nat :: "bool \<Rightarrow> nat \<Rightarrow> nat \<Rightarrow> nat" where
  "idx1_nat r u i = (if r then (i div u) * u + (u - 1 - i mod u) else i + u div 2)"

text \<open>
  What a lane decides on: \<^verbatim>\<open>0 < rv\<close> for the comparator called on two index entries of one
  chunk, with the fresh \<^verbatim>\<open>errcode\<close> of \<^verbatim>\<open>gpusort_single\<close>.
\<close>

definition gt_of :: "('c, 't) gpusort_comp \<Rightarrow> 'c \<Rightarrow> 't \<Rightarrow> cl_int \<Rightarrow> cl_int \<Rightarrow> bool" where
  "gt_of cmp c ts p q = (0 <s snd (cmp StromError_Success c ts p c ts q))"

text \<open>The lane on the index array alone, with the indexes as natural numbers.\<close>

definition lane_nat ::
  "(cl_int \<Rightarrow> cl_int \<Rightarrow> bool) \<Rightarrow> bool \<Rightarrow> nat \<Rightarrow> nat \<Rightarrow> cl_int list \<Rightarrow> nat \<Rightarrow> cl_int list" where
  "lane_nat gt r u n xs t =
     (let i0 = idx0_nat u t; i1 = idx1_nat r u i0
      in if n \<le> i1 then xs
         else if gt (xs ! i0) (xs ! i1) then xs[i0 := xs ! i1, i1 := xs ! i0]
         else xs)"

section \<open>The sorting network on natural numbers and on truth values\<close>

text \<open>
  A pass on the index array alone; the lane that owns a slot; and what a pass leaves in
  slot \<open>i\<close>, by the slot's partner: the smaller of the two entries in the lower slot of a
  pair, the larger in the upper one, where a pair whose upper slot is at or beyond the row
  count is left alone.
\<close>

definition pass_nat ::
  "(cl_int \<Rightarrow> cl_int \<Rightarrow> bool) \<Rightarrow> bool \<Rightarrow> nat \<Rightarrow> nat \<Rightarrow> nat \<Rightarrow> cl_int list \<Rightarrow> cl_int list" where
  "pass_nat gt r u n G xs = foldl (lane_nat gt r u n) xs [0..<G]"

definition lane_of :: "bool \<Rightarrow> nat \<Rightarrow> nat \<Rightarrow> nat" where
  "lane_of r h i =
     (i div (2 * h)) * h +
     (if i mod (2 * h) < h then i mod (2 * h)
      else if r then 2 * h - 1 - i mod (2 * h) else i mod (2 * h) - h)"

definition partner :: "bool \<Rightarrow> nat \<Rightarrow> nat \<Rightarrow> nat" where
  "partner r h i =
     (if r then (i div (2 * h)) * (2 * h) + (2 * h - 1 - i mod (2 * h))
      else if i mod (2 * h) < h then i + h else i - h)"

definition pass_spec ::
  "(cl_int \<Rightarrow> cl_int \<Rightarrow> bool) \<Rightarrow> bool \<Rightarrow> nat \<Rightarrow> nat \<Rightarrow> cl_int list \<Rightarrow> nat \<Rightarrow> cl_int" where
  "pass_spec gt r h n xs i =
     (let p = partner r h i
      in if i mod (2 * h) < h
         then (if p < n \<and> gt (xs ! i) (xs ! p) then xs ! p else xs ! i)
         else (if i < n \<and> gt (xs ! p) (xs ! i) then xs ! p else xs ! i))"

text \<open>The passes of one stage and of the whole sort, on the index array.\<close>

fun nfwd :: "(cl_int \<Rightarrow> cl_int \<Rightarrow> bool) \<Rightarrow> nat \<Rightarrow> nat \<Rightarrow> nat \<Rightarrow> cl_int list \<Rightarrow> cl_int list" where
  "nfwd gt n G 0 xs = xs"
| "nfwd gt n G (Suc j) xs = nfwd gt n G j (pass_nat gt False (2 * 2 ^ j) n G xs)"

definition nstage :: "(cl_int \<Rightarrow> cl_int \<Rightarrow> bool) \<Rightarrow> nat \<Rightarrow> nat \<Rightarrow> nat \<Rightarrow> cl_int list \<Rightarrow> cl_int list" where
  "nstage gt n G j xs = nfwd gt n G j (pass_nat gt True (2 * 2 ^ j) n G xs)"

fun nsort :: "(cl_int \<Rightarrow> cl_int \<Rightarrow> bool) \<Rightarrow> nat \<Rightarrow> nat \<Rightarrow> nat \<Rightarrow> cl_int list \<Rightarrow> cl_int list" where
  "nsort gt n G 0 xs = xs"
| "nsort gt n G (Suc K) xs = nstage gt n G K (nsort gt n G K xs)"

text \<open>
  The comparator as an order: \<open>gt p q\<close> says that row \<open>p\<close> is strictly after row \<open>q\<close>. It is
  a total preorder on a set of rows when "not after" is total and transitive there. A
  comparator is a total order comparator for a chunk when this holds on the rows below the
  chunk's row count.
\<close>

definition total_preorder_on :: "(cl_int \<Rightarrow> cl_int \<Rightarrow> bool) \<Rightarrow> cl_int set \<Rightarrow> bool" where
  "total_preorder_on gt S =
     ((\<forall>a\<in>S. \<forall>b\<in>S. \<not> gt a b \<or> \<not> gt b a) \<and>
      (\<forall>a\<in>S. \<forall>b\<in>S. \<forall>c\<in>S. \<not> gt a b \<and> \<not> gt b c \<longrightarrow> \<not> gt a c))"

definition total_order_comparator :: "('c, 't) gpusort_comp \<Rightarrow> ('c, 't) kern_gpusort \<Rightarrow> bool" where
  "total_order_comparator cmp kg =
     total_preorder_on (gt_of cmp (coldata kg) (ktoast kg)) {p. unat p < unat (nrows kg)}"

text \<open>
  The image of an index array under a threshold \<open>v\<close>: slot \<open>i\<close> is true when it is at or
  beyond the row count or its row is strictly after row \<open>v\<close>. A pass acts on such an image as
  \<open>bpass\<close>: conjunction in the lower slot of a pair, disjunction in the upper one.
\<close>

definition above :: "(cl_int \<Rightarrow> cl_int \<Rightarrow> bool) \<Rightarrow> cl_int \<Rightarrow> nat \<Rightarrow> cl_int list \<Rightarrow> nat \<Rightarrow> bool" where
  "above gt v n xs i = (n \<le> i \<or> gt (xs ! i) v)"

definition bpass :: "bool \<Rightarrow> nat \<Rightarrow> (nat \<Rightarrow> bool) \<Rightarrow> nat \<Rightarrow> bool" where
  "bpass r h a i =
     (if i mod (2 * h) < h then a i \<and> a (partner r h i) else a i \<or> a (partner r h i))"

fun bfwd :: "nat \<Rightarrow> (nat \<Rightarrow> bool) \<Rightarrow> nat \<Rightarrow> bool" where
  "bfwd 0 a = a"
| "bfwd (Suc j) a = bfwd j (bpass False (2 ^ j) a)"

definition bstage :: "nat \<Rightarrow> (nat \<Rightarrow> bool) \<Rightarrow> nat \<Rightarrow> bool" where
  "bstage j a = bfwd j (bpass True (2 ^ j) a)"

fun bsort :: "nat \<Rightarrow> (nat \<Rightarrow> bool) \<Rightarrow> nat \<Rightarrow> bool" where
  "bsort 0 a = a"
| "bsort (Suc K) a = bstage K (bsort K a)"

text \<open>
  Invariants of the network on truth values: the block of \<open>w\<close> slots from \<open>base\<close> is bitonic
  (its true slots, or its false slots, are one interval); every aligned block of \<open>w\<close> slots
  is sorted; and, inside a merge of blocks of \<open>U\<close> slots, every aligned block of \<open>w\<close> slots is
  bitonic and the blocks are in order.
\<close>

definition ones_mid :: "nat \<Rightarrow> nat \<Rightarrow> nat \<Rightarrow> bool" where
  "ones_mid p q s = (p \<le> s \<and> s < q)"

definition bitonic01 :: "(nat \<Rightarrow> bool) \<Rightarrow> nat \<Rightarrow> nat \<Rightarrow> bool" where
  "bitonic01 a base w =
     (\<exists>p q. p \<le> q \<and> q \<le> w \<and>
        ((\<forall>s<w. a (base + s) = (p \<le> s \<and> s < q)) \<or>
         (\<forall>s<w. a (base + s) = (\<not> (p \<le> s \<and> s < q)))))"

definition blocks_sorted :: "nat \<Rightarrow> (nat \<Rightarrow> bool) \<Rightarrow> bool" where
  "blocks_sorted w a = (\<forall>i j. i \<le> j \<and> i div w = j div w \<longrightarrow> a i \<longrightarrow> a j)"

definition merge_inv :: "nat \<Rightarrow> nat \<Rightarrow> (nat \<Rightarrow> bool) \<Rightarrow> bool" where
  "merge_inv w U a =
     ((\<forall>c. bitonic01 a (c * w) w) \<and>
      (\<forall>i j. i < j \<and> i div U = j div U \<and> i div w \<noteq> j div w \<longrightarrow> a i \<longrightarrow> a j))"

definition net_ok ::
  "(cl_int \<Rightarrow> cl_int \<Rightarrow> bool) \<Rightarrow> cl_int \<Rightarrow> nat \<Rightarrow> cl_int list \<Rightarrow> cl_int list \<Rightarrow> (nat \<Rightarrow> bool) \<Rightarrow> bool" where
  "net_ok gt v n xs ys b =
     (length ys = length xs \<and> mset (take n ys) = mset (take n xs) \<and> above gt v n ys = b)"

section \<open>Example inputs\<close>

text \<open>
  A comparator on chunks whose column data is one column of \<^verbatim>\<open>cl_int\<close> keys, a comparator that
  faults on every call and asks for a swap, and two chunks.
\<close>

definition key_comp :: "(cl_int list, unit) gpusort_comp" where
  "key_comp errcode kcs_x ktoast_x x_index kcs_y ktoast_y y_index =
     (errcode, if kcs_y ! unat y_index <s kcs_x ! unat x_index then 1
               else if kcs_x ! unat x_index <s kcs_y ! unat y_index then - 1 else 0)"

definition faulting_comp :: "(cl_int list, unit) gpusort_comp" where
  "faulting_comp errcode kcs_x ktoast_x x_index kcs_y ktoast_y y_index = (StromError_Fault, 1)"

definition chunk8 :: "(cl_int list, unit) kern_gpusort" where
  "chunk8 = \<lparr>nrows = 8, coldata = [50, 20, 70, 10, 40, 80, 30, 60],
             result_index = [0, 1, 2, 3, 4, 5, 6, 7], status = StromError_Success, ktoast = ()\<rparr>"

definition chunk2 :: "(cl_int list, unit) kern_gpusort" where
  "chunk2 = \<lparr>nrows = 2, coldata = [10, 20], result_index = [0, 1],
             status = StromError_Success, ktoast = ()\<rparr>"

text \<open>
  Helpers for loading a batch of \<^verbatim>\<open>cl_int\<close> keys that raise no error: the row of a lane goes
  to its slot, and the status word takes the first error code of the lanes when it is
  \<^verbatim>\<open>StromError_Success\<close>.
\<close>

definition plain_helpers :: "(cl_int list, unit, cl_int list) setup_helpers" where
  "plain_helpers =
     \<lparr>pg_bytea_param = (\<lambda>e. e),
      kern_row_to_column = (\<lambda>e krs c ts off n g l.
         (e, if l < n then c[unat (off + l) := krs ! unat g] else c, ts)),
      put_growid = (\<lambda>c i g. c),
      kern_writeback_error_status = (\<lambda>st es.
         if st = StromError_Success
         then (case filter (\<lambda>e. e \<noteq> StromError_Success) es of [] \<Rightarrow> st | e # _ \<Rightarrow> e)
         else st)\<rparr>"

definition empty_chunk8 :: "(cl_int list, unit) kern_gpusort" where
  "empty_chunk8 = \<lparr>nrows = 0, coldata = [0, 0, 0, 0, 0, 0, 0, 0],
                   result_index = [0, 0, 0, 0, 0, 0, 0, 0], status = StromError_Success, ktoast = ()\<rparr>"

definition batch9 :: "cl_int list" where
  "batch9 = [11, 12, 13, 14, 15, 16, 17, 18, 19]"

text \<open>
  Chunks of (key, record id) rows for merging, a comparator on the keys, and the copy of
  one row.
\<close>

definition pair_comp :: "((cl_int \<times> cl_int) list, unit) gpusort_comp" where
  "pair_comp errcode kcs_x ktoast_x x_index kcs_y ktoast_y y_index =
     (errcode, if fst (kcs_y ! unat y_index) <s fst (kcs_x ! unat x_index) then 1
               else if fst (kcs_x ! unat x_index) <s fst (kcs_y ! unat y_index) then - 1 else 0)"

definition pair_copy :: "((cl_int \<times> cl_int) list, unit) kern_column_to_column" where
  "pair_copy errcode dst tdst pdst src tsrc psrc = (errcode, dst[unat pdst := src ! unat psrc], tdst)"

definition chunk_of :: "(cl_int \<times> cl_int) list \<Rightarrow> cl_int list \<Rightarrow> cl_uint \<Rightarrow> ((cl_int \<times> cl_int) list, unit) kern_gpusort" where
  "chunk_of rows idx n = \<lparr>nrows = n, coldata = rows, result_index = idx, status = StromError_Success, ktoast = ()\<rparr>"

definition tie_chunks :: "((cl_int \<times> cl_int) list, unit) merge_chunks" where
  "tie_chunks =
     \<lparr>x_chunk = chunk_of [(1, 100), (1, 101), (3, 102), (3, 103)] [0, 1, 2, 3] 4,
      y_chunk = chunk_of [(0, 200), (1, 201), (1, 202), (2, 203)] [0, 1, 2, 3] 4,
      z_chunk0 = chunk_of [(0, 0), (0, 0), (0, 0), (0, 0)] [0, 0, 0, 0] 0,
      z_chunk1 = chunk_of [(0, 0), (0, 0), (0, 0), (0, 0)] [0, 0, 0, 0] 0\<rparr>"

definition tie_chunks_before_last_pass :: "((cl_int \<times> cl_int) list, unit) merge_chunks" where
  "tie_chunks_before_last_pass =
     \<lparr>x_chunk = chunk_of [(1, 100), (1, 101), (3, 102), (3, 103)] [0, 4, 5, 1] 4,
      y_chunk = chunk_of [(0, 200), (1, 201), (1, 202), (2, 203)] [6, 7, 3, 2] 4,
      z_chunk0 = chunk_of [(0, 0), (0, 0), (0, 0), (0, 0)] [0, 0, 0, 0] 0,
      z_chunk1 = chunk_of [(0, 0), (0, 0), (0, 0), (0, 0)] [0, 0, 0, 0] 0\<rparr>"

definition spec_example_chunks :: "((cl_int \<times> cl_int) list, unit) merge_chunks" where
  "spec_example_chunks =
     \<lparr>x_chunk = chunk_of [(3, 100), (7, 101), (0, 0), (0, 0)] [0, 1, 0, 0] 2,
      y_chunk = chunk_of [(1, 200), (5, 201), (9, 202), (0, 0)] [0, 1, 2, 0] 3,
      z_chunk0 = chunk_of [(0, 0), (0, 0), (0, 0), (0, 0)] [0, 0, 0, 0] 0,
      z_chunk1 = chunk_of [(0, 0), (0, 0), (0, 0), (0, 0)] [0, 0, 0, 0] 0\<rparr>"

text \<open>
  Two sorted chunks of three rows and of two rows, and what the passes with unit sizes 8
  (reversing) and 4 make of them for \<open>N = 8\<close>.
\<close>

definition odd_chunks :: "((cl_int \<times> cl_int) list, unit) merge_chunks" where
  "odd_chunks =
     \<lparr>x_chunk = chunk_of [(1, 100), (5, 101), (9, 102), (0, 0)] [0, 1, 2, 0] 3,
      y_chunk = chunk_of [(3, 200), (7, 201), (0, 0), (0, 0)] [0, 1, 0, 0] 2,
      z_chunk0 = chunk_of [(0, 0), (0, 0), (0, 0), (0, 0)] [0, 0, 0, 0] 0,
      z_chunk1 = chunk_of [(0, 0), (0, 0), (0, 0), (0, 0)] [0, 0, 0, 0] 0\<rparr>"

definition odd_chunks_before_last_pass :: "((cl_int \<times> cl_int) list, unit) merge_chunks" where
  "odd_chunks_before_last_pass =
     \<lparr>x_chunk = chunk_of [(1, 100), (5, 101), (9, 102), (0, 0)] [0, 4, 5, 1] 3,
      y_chunk = chunk_of [(3, 200), (7, 201), (0, 0), (0, 0)] [8, 2, 8, 8] 2,
      z_chunk0 = chunk_of [(0, 0), (0, 0), (0, 0), (0, 0)] [0, 0, 0, 0] 0,
      z_chunk1 = chunk_of [(0, 0), (0, 0), (0, 0), (0, 0)] [0, 0, 0, 0] 0\<rparr>"

section \<open>Frame of a lane and of a pass\<close>

lemma run_gpusort_single_frame:
  assumes "run_gpusort_single cmp r u kg t e = Some (kg', e')"
  shows "nrows kg' = nrows kg \<and> coldata kg' = coldata kg \<and> ktoast kg' = ktoast kg
         \<and> status kg' = status kg \<and> length (result_index kg') = length (result_index kg)
         \<and> mset (result_index kg') = mset (result_index kg)"
  using assms
  by (auto simp: run_gpusort_single_def Let_def in_bounds_def mset_swap
           split: if_splits prod.splits)

lemma gpusort_single_frame:
  assumes "gpusort_single cmp b kg t = Some kg'"
  shows "nrows kg' = nrows kg \<and> coldata kg' = coldata kg \<and> ktoast kg' = ktoast kg
         \<and> status kg' = status kg \<and> length (result_index kg') = length (result_index kg)
         \<and> mset (result_index kg') = mset (result_index kg)"
proof -
  from assms obtain r u e' where
    "run_gpusort_single cmp r u kg t StromError_Success = Some (kg', e')"
    by (auto simp: gpusort_single_def Let_def)
  then show ?thesis by (rule run_gpusort_single_frame)
qed

lemma gpusort_single_lanes_frame:
  assumes "gpusort_single_lanes cmp b ts kg = Some kg'"
  shows "nrows kg' = nrows kg \<and> coldata kg' = coldata kg \<and> ktoast kg' = ktoast kg
         \<and> status kg' = status kg \<and> length (result_index kg') = length (result_index kg)
         \<and> mset (result_index kg') = mset (result_index kg)"
  using assms
proof (induction ts arbitrary: kg)
  case Nil
  then show ?case by simp
next
  case (Cons t ts)
  then obtain kg1 where 1: "gpusort_single cmp b kg (of_nat t) = Some kg1"
    and 2: "gpusort_single_lanes cmp b ts kg1 = Some kg'"
    by (auto split: option.splits)
  from gpusort_single_frame [OF 1] Cons.IH [OF 2] show ?case by simp
qed

section \<open>From machine integers to natural numbers\<close>

lemma sint_of_nat32: "t < 2^31 \<Longrightarrow> sint (word_of_nat t :: 32 word) = int t"
  by (simp add: signed_of_nat signed_take_bit_int_eq_self)

lemma unat_of_nat32: "t < 2^32 \<Longrightarrow> unat (word_of_nat t :: 32 word) = t"
  by (simp add: unsigned_of_nat take_bit_nat_eq_self)

lemma pow2_less: "j < n \<Longrightarrow> (2::nat)^j < 2^n"
  by simp

lemma sint_pow32: "j < 31 \<Longrightarrow> sint (2^j :: 32 word) = 2^j"
  using sint_of_nat32 [of "2^j"] pow2_less [of j 31] by simp

lemma unat_pow32: "j < 32 \<Longrightarrow> unat (2^j :: 32 word) = 2^j"
  using unat_of_nat32 [of "2^j"] pow2_less [of j 32] by simp

lemma sdiv_nonneg: "(0::int) \<le> a \<Longrightarrow> 0 \<le> b \<Longrightarrow> a sdiv b = a div b"
  by (cases "a = 0"; cases "b = 0") (simp_all add: signed_divide_int_def)

lemma smod_nonneg: "(0::int) \<le> a \<Longrightarrow> 0 \<le> b \<Longrightarrow> a smod b = a mod b"
  by (cases "a = 0"; cases "b = 0") (simp_all add: signed_modulo_int_def)

lemma cl_int_div_nat: "t < 2^31 \<Longrightarrow> j < 31 \<Longrightarrow> cl_int_div (word_of_nat t) (2^j) = word_of_nat (t div 2^j)"
proof -
  assume a: "t < 2^31" "j < 31"
  have "int t div 2^j = int (t div 2^j)" by (simp add: zdiv_int)
  then show ?thesis
    using a by (simp add: cl_int_div_def sint_of_nat32 sint_pow32 sdiv_nonneg)
qed

lemma cl_int_mod_nat: "t < 2^31 \<Longrightarrow> j < 31 \<Longrightarrow> cl_int_mod (word_of_nat t) (2^j) = word_of_nat (t mod 2^j)"
proof -
  assume a: "t < 2^31" "j < 31"
  have "int t mod 2^j = int (t mod 2^j)" by (simp add: zmod_int)
  then show ?thesis
    using a by (simp add: cl_int_mod_def sint_of_nat32 sint_pow32 smod_nonneg)
qed

lemma half_pow32: "1 \<le> k \<Longrightarrow> k < 32 \<Longrightarrow> (2^k :: 32 word) div 2 = 2^(k-1)"
proof -
  assume k: "1 \<le> k" "k < 32"
  then obtain j where j: "k = Suc j" by (cases k) auto
  have "unat ((2^k :: 32 word) div 2) = unat (2^(k-1) :: 32 word)"
    using k j unat_pow32 [of k] unat_pow32 [of j]
    by (simp add: unat_div)
  then show ?thesis by (simp only: word_unat_eq_iff)
qed

lemma and_not_mask32: "(x::32 word) AND NOT (mask k) = x - take_bit k x"
  by (metis (no_types, lifting) and.commute and.left_commute
    bit.conj_xor_distrib diff_zero disjunctive_and_not_eq_xor
    disjunctive_diff_eq_and_not take_bit_eq_mask word_and_not
    word_not_not)

lemma not_and_mask32: "NOT (x::32 word) AND (mask k) = mask k - take_bit k x"
  by (metis take_bit_not_eq_mask_diff take_bit_eq_mask)

lemma take_bit_of_nat32: "take_bit k (word_of_nat i :: 32 word) = word_of_nat (i mod 2^k)"
  by (metis take_bit_eq_mod of_nat_take_bit)

lemma lane_idx0_nat:
  assumes "1 \<le> k" "k \<le> 30" "t < 2^30"
  shows "lane_idx0 (2^k) (word_of_nat t) = word_of_nat (idx0_nat (2^k) t)"
proof -
  have "(2::nat)^k div 2 = 2^(k-1)" using assms by (simp add: power_diff)
  then show ?thesis
    using assms by (simp add: lane_idx0_def idx0_nat_def half_pow32 cl_int_div_nat cl_int_mod_nat)
qed

lemma lane_idx1_fwd_nat:
  assumes "1 \<le> k" "k \<le> 30"
  shows "lane_idx1 False (2^k) (word_of_nat i) = word_of_nat (idx1_nat False (2^k) i)"
proof -
  have "(2::nat)^k div 2 = 2^(k-1)" using assms by (simp add: power_diff)
  then show ?thesis
    using assms by (simp add: lane_idx1_def idx1_nat_def half_pow32)
qed

lemma lane_idx1_rev_nat:
  shows "lane_idx1 True (2^k) (word_of_nat i) = word_of_nat (idx1_nat True (2^k) i)"
proof -
  let ?x = "word_of_nat i :: 32 word"
  have disj: "(?x AND NOT (mask k)) AND (NOT ?x AND mask k) = 0"
    by (simp add: bit_eq_iff bit_simps)
  have m: "(mask k :: 32 word) = word_of_nat (2^k - 1)"
    by (simp add: mask_eq_exp_minus_1)
  have le1: "i mod 2^k \<le> 2^k - 1"
  proof -
    have "i mod 2^k < 2^k" by simp
    then show ?thesis by arith
  qed
  have d1: "?x - word_of_nat (i mod 2^k) = word_of_nat (i - i mod 2^k)"
    by (simp only: of_nat_diff [OF mod_less_eq_dividend])
  have d2: "mask k - word_of_nat (i mod 2^k) = (word_of_nat (2^k - 1 - i mod 2^k) :: 32 word)"
    by (simp only: m of_nat_diff [OF le1])
  have "lane_idx1 True (2^k) ?x = (?x AND NOT (mask k)) + (NOT ?x AND mask k)"
    by (simp add: lane_idx1_def Let_def disjunctive_add_eq_or [OF disj] flip: mask_eq_exp_minus_1)
  also have "\<dots> = (?x - word_of_nat (i mod 2^k)) + (mask k - word_of_nat (i mod 2^k))"
    by (simp only: and_not_mask32 not_and_mask32 take_bit_of_nat32)
  also have "\<dots> = word_of_nat (i - i mod 2^k) + word_of_nat (2^k - 1 - i mod 2^k)"
    by (simp only: d1 d2)
  also have "i - i mod 2^k = (i div 2^k) * 2^k"
    by (simp add: minus_mod_eq_div_mult)
  finally show ?thesis by (simp add: idx1_nat_def)
qed

section \<open>The index pair on natural numbers\<close>

lemma idx0_nat_2h: "idx0_nat (2 * h) t = (t div h) * (2 * h) + t mod h"
  by (simp add: idx0_nat_def)

lemma idx0_nat_div: "0 < h \<Longrightarrow> idx0_nat (2 * h) t div (2 * h) = t div h"
proof -
  assume h: "0 < h"
  then have "t mod h < 2 * h" using mod_less_divisor [of h t] by linarith
  then show ?thesis by (simp add: idx0_nat_2h)
qed

lemma idx0_nat_mod: "0 < h \<Longrightarrow> idx0_nat (2 * h) t mod (2 * h) = t mod h"
proof -
  assume h: "0 < h"
  then have "t mod h < 2 * h" using mod_less_divisor [of h t] by linarith
  then show ?thesis by (simp add: idx0_nat_2h)
qed

lemma idx1_nat_rev_2h:
  "0 < h \<Longrightarrow> idx1_nat True (2 * h) (idx0_nat (2 * h) t) = (t div h) * (2 * h) + (2 * h - 1 - t mod h)"
  by (simp add: idx1_nat_def idx0_nat_div idx0_nat_mod)

lemma idx1_nat_fwd_2h:
  "idx1_nat False (2 * h) (idx0_nat (2 * h) t) = (t div h) * (2 * h) + (t mod h + h)"
  by (simp add: idx1_nat_def idx0_nat_2h)

lemma idx0_less_idx1_nat:
  assumes "0 < h"
  shows "idx0_nat (2 * h) t < idx1_nat r (2 * h) (idx0_nat (2 * h) t)"
proof (cases r)
  case True
  have "t mod h < h" using assms by simp
  then have "t mod h < 2 * h - 1 - t mod h" by arith
  then have "idx0_nat (2 * h) t < (t div h) * (2 * h) + (2 * h - 1 - t mod h)"
    by (simp add: idx0_nat_2h)
  then show ?thesis using True assms by (simp only: idx1_nat_rev_2h)
next
  case False
  then show ?thesis using assms by (simp add: idx1_nat_def)
qed

lemma idx1_nat_less_block:
  assumes "0 < h"
  shows "idx1_nat r (2 * h) (idx0_nat (2 * h) t) < (t div h + 1) * (2 * h)"
proof -
  have "t mod h < h" using assms by simp
  then show ?thesis using assms
    by (cases r) (simp_all add: idx1_nat_rev_2h idx1_nat_fwd_2h)
qed

lemma idx1_nat_bound32:
  assumes "1 \<le> k" "k \<le> 30" "t < 2^30"
  shows "idx1_nat r (2^k) (idx0_nat (2^k) t) < 2^31"
proof -
  obtain j where j: "k = Suc j" using assms(1) by (cases k) auto
  let ?h = "(2::nat)^j"
  have u: "(2::nat)^k = 2 * ?h" by (simp add: j)
  have "j \<le> 30" using assms(2) j by simp
  then have dv: "?h dvd 2^30" by (rule le_imp_power_dvd)
  have "t div ?h < 2^30 div ?h"
    using assms(3) dv by (simp add: div_less_iff_less_mult)
  then have "(t div ?h + 1) * ?h \<le> (2^30 div ?h) * ?h"
    by (intro mult_le_mono1) simp
  also have "\<dots> = 2^30" using dv by (rule dvd_div_mult_self)
  finally have "(t div ?h + 1) * (2 * ?h) \<le> 2^31" by simp
  with idx1_nat_less_block [of ?h r t] show ?thesis by (simp add: u)
qed

section \<open>The kernel computes the lane on natural numbers\<close>

lemma and31_of_nat: "k < 32 \<Longrightarrow> (word_of_nat k :: 32 word) AND 31 = word_of_nat k"
proof -
  assume k: "k < 32"
  have "(31 :: 32 word) = mask 5" by (simp add: mask_eq_exp_minus_1)
  then have "(word_of_nat k :: 32 word) AND 31 = take_bit 5 (word_of_nat k)"
    by (simp add: take_bit_eq_mask)
  also have "\<dots> = word_of_nat (k mod 2^5)" by (rule take_bit_of_nat32)
  finally show ?thesis using k by simp
qed

lemma cl_shl_1: "k < 32 \<Longrightarrow> cl_shl 1 (word_of_nat k) = 2^k"
  by (simp add: cl_shl_def and31_of_nat unat_of_nat32)

lemma sint_minus_of_nat32: "k \<le> 2^31 \<Longrightarrow> sint (- word_of_nat k :: 32 word) = - int k"
proof -
  assume "k \<le> 2^31"
  have "(- word_of_nat k :: 32 word) = word_of_int (- int k)" by simp
  then have "sint (- word_of_nat k :: 32 word) = signed_take_bit 31 (- int k)"
    by (simp only: signed_of_int) simp
  also have "\<dots> = - int k" using \<open>k \<le> 2^31\<close> by (simp add: signed_take_bit_int_eq_self)
  finally show ?thesis .
qed

lemma decode_fwd:
  assumes "k \<le> 30"
  shows "\<not> ((word_of_nat k :: 32 word) <s 0)" and "cl_shl 1 (word_of_nat k) = 2^k"
  using assms by (simp_all add: word_sless_alt sint_of_nat32 cl_shl_1)

lemma decode_rev:
  assumes "1 \<le> k" "k \<le> 30"
  shows "(- word_of_nat k :: 32 word) <s 0" and "cl_shl 1 (- (- word_of_nat k)) = 2^k"
  using assms by (simp_all add: word_sless_alt sint_minus_of_nat32 cl_shl_1)

lemma in_bounds_of_nat: "i < 2^31 \<Longrightarrow> in_bounds xs (word_of_nat i) = (i < length xs)"
  by (simp add: in_bounds_def word_sle_eq sint_of_nat32 unat_of_nat32)

lemma sle_unat_of_nat:
  assumes "unat (n :: 32 word) < 2^31" "i < 2^31"
  shows "(n \<le>s word_of_nat i) = (unat n \<le> i)"
proof -
  have "n = word_of_nat (unat n)" by simp
  then have "sint n = int (unat n)" using sint_of_nat32 [OF assms(1)] by simp
  moreover have "(int (unat n) \<le> int i) = (unat n \<le> i)" by (rule of_nat_le_iff)
  ultimately show ?thesis using assms(2) by (simp only: word_sle_eq sint_of_nat32)
qed

lemma run_gpusort_single_nat:
  assumes k: "1 \<le> k" "k \<le> 30" and t: "t < 2^30"
    and n: "unat (nrows kg) \<le> length (result_index kg)" "length (result_index kg) < 2^31"
  shows "run_gpusort_single cmp r (2^k) kg (word_of_nat t) StromError_Success =
         Some (kg\<lparr>result_index := lane_nat (gt_of cmp (coldata kg) (ktoast kg)) r (2^k)
                  (unat (nrows kg)) (result_index kg) t\<rparr>,
               if unat (nrows kg) \<le> idx1_nat r (2^k) (idx0_nat (2^k) t) then StromError_Success
               else fst (cmp StromError_Success (coldata kg) (ktoast kg)
                      (result_index kg ! idx0_nat (2^k) t) (coldata kg) (ktoast kg)
                      (result_index kg ! idx1_nat r (2^k) (idx0_nat (2^k) t))))"
proof -
  obtain j where j: "k = Suc j" using k(1) by (cases k) auto
  have u: "(2::nat)^k = 2 * 2^j" by (simp add: j)
  let ?i0 = "idx0_nat (2^k) t" and ?n = "unat (nrows kg)"
  let ?i1 = "idx1_nat r (2^k) ?i0"
  have lt: "?i0 < ?i1" using idx0_less_idx1_nat [of "2^j" t r] by (simp add: u)
  have b1: "?i1 < 2^31" using k t by (rule idx1_nat_bound32)
  then have b0: "?i0 < 2^31" using lt by simp
  have w0: "lane_idx0 (2^k) (word_of_nat t) = word_of_nat ?i0"
    using k t by (rule lane_idx0_nat)
  have w1: "lane_idx1 r (2^k) (word_of_nat ?i0) = word_of_nat ?i1"
    using k by (cases r) (simp_all only: lane_idx1_rev_nat lane_idx1_fwd_nat)
  have h: "(2^k :: 32 word) div 2 \<noteq> 0"
    using k by (simp add: half_pow32)
  have nb: "?n < 2^31" using n by simp
  have g: "(nrows kg \<le>s word_of_nat ?i1) = (?n \<le> ?i1)"
    using nb b1 by (rule sle_unat_of_nat)
  show ?thesis
  proof (cases "?n \<le> ?i1")
    case True
    then show ?thesis
      using h g by (simp add: run_gpusort_single_def w0 w1 lane_nat_def Let_def)
  next
    case False
    then have "?i1 < length (result_index kg)" "?i0 < length (result_index kg)"
      using n lt by simp_all
    then show ?thesis
      using False h g b0 b1
      by (simp add: run_gpusort_single_def w0 w1 lane_nat_def Let_def in_bounds_of_nat
            unat_of_nat32 gt_of_def split: prod.split)
  qed
qed

lemma gpusort_single_nat:
  assumes k: "1 \<le> k" "k \<le> 30" and t: "t < 2^30"
    and b: "b = word_of_nat k \<or> b = - word_of_nat k"
    and n: "unat (nrows kg) \<le> length (result_index kg)" "length (result_index kg) < 2^31"
  shows "gpusort_single cmp b kg (word_of_nat t) =
         Some (kg\<lparr>result_index := lane_nat (gt_of cmp (coldata kg) (ktoast kg)) (b <s 0) (2^k)
                  (unat (nrows kg)) (result_index kg) t\<rparr>)"
proof -
  have "(if b <s 0 then cl_shl 1 (- b) else cl_shl 1 b) = 2^k"
    using b k decode_fwd [of k] decode_rev [of k] by auto
  then show ?thesis
    using run_gpusort_single_nat [OF k t n, of cmp "b <s 0"]
    by (simp add: gpusort_single_def)
qed

section \<open>Claims about one lane and one pass\<close>

text \<open>
  Claim C9. Every pass of the in-chunk sort changes the index array only: when a pass
  (the lanes \<open>0, \<dots>, G - 1\<close> of one launch of \<^verbatim>\<open>gpusort_single\<close>) returns, the column data,
  the toast buffer and the row count of the chunk are what they were before, for every
  comparator, unit size, direction and work size.
\<close>

theorem gpusort_single_pass_frame:
  assumes "gpusort_single_pass cmp b G kg = Some kg'"
  shows "coldata kg' = coldata kg \<and> ktoast kg' = ktoast kg \<and> nrows kg' = nrows kg"
  using gpusort_single_lanes_frame [of cmp b "[0..<G]" kg kg'] assms
  by (simp add: gpusort_single_pass_def)

theorem gpusort_single_pass_frame_witness:
  "gpusort_single_pass key_comp (- 2) 8 chunk8
     = Some (chunk8\<lparr>result_index := [3, 1, 2, 0, 4, 6, 5, 7]\<rparr>)
   \<and> coldata (chunk8\<lparr>result_index := [3, 1, 2, 0, 4, 6, 5, 7]\<rparr>) = coldata chunk8
   \<and> ktoast (chunk8\<lparr>result_index := [3, 1, 2, 0, 4, 6, 5, 7]\<rparr>) = ktoast chunk8
   \<and> nrows (chunk8\<lparr>result_index := [3, 1, 2, 0, 4, 6, 5, 7]\<rparr>) = nrows chunk8"
proof -
  have p: "gpusort_single_pass key_comp (- 2) 8 chunk8
             = Some (chunk8\<lparr>result_index := [3, 1, 2, 0, 4, 6, 5, 7]\<rparr>)"
    by code_simp
  from p gpusort_single_pass_frame [OF p] show ?thesis by simp
qed

text \<open>
  Claim C10. For a unit size \<open>2 ^ k\<close> with \<open>1 \<le> k \<le> 30\<close> and a thread id below \<open>2 ^ 30\<close>, the
  pair of a lane satisfies \<open>idx0 < idx1\<close>; a lane that returns has left the index array as
  it was or has swapped exactly the entries at \<open>idx0\<close> and \<open>idx1\<close>; the lane, and every pass,
  keeps the index array's entries as a multiset.
\<close>

theorem gpusort_single_swap_or_skip:
  assumes "1 \<le> k" "k \<le> 30" "t < 2^30"
    and "b = word_of_nat k \<or> b = - word_of_nat k"
    and "gpusort_single cmp b kg (word_of_nat t) = Some kg'"
    and "idx0 = lane_idx0 (2^k) (word_of_nat t)" "idx1 = lane_idx1 (b <s 0) (2^k) idx0"
  shows "idx0 <s idx1
       \<and> (result_index kg' = result_index kg
          \<or> result_index kg' = (result_index kg)[unat idx0 := result_index kg ! unat idx1,
                                                  unat idx1 := result_index kg ! unat idx0])
       \<and> mset (result_index kg') = mset (result_index kg)
       \<and> (\<forall>G kg''. gpusort_single_pass cmp b G kg = Some kg''
              \<longrightarrow> mset (result_index kg'') = mset (result_index kg))"
proof -
  obtain j where j: "k = Suc j" using assms(1) by (cases k) auto
  have u: "(2::nat)^k = 2 * 2^j" by (simp add: j)
  let ?r = "b <s 0"
  let ?i0 = "idx0_nat (2^k) t"
  let ?i1 = "idx1_nat ?r (2^k) ?i0"
  have lt: "?i0 < ?i1" using idx0_less_idx1_nat [of "2^j" t ?r] by (simp add: u)
  have b1: "?i1 < 2^31" using assms(1-3) by (rule idx1_nat_bound32)
  then have b0: "?i0 < 2^31" using lt by simp
  have w0: "idx0 = word_of_nat ?i0"
    using assms(1-3,6) by (simp only: lane_idx0_nat)
  have w1: "idx1 = word_of_nat ?i1"
    using assms(1,2,7) by (cases ?r) (simp_all only: w0 lane_idx1_rev_nat lane_idx1_fwd_nat)
  have 1: "idx0 <s idx1"
    using lt b0 b1 by (simp add: w0 w1 word_sless_alt sint_of_nat32)
  have ub: "(if b <s 0 then cl_shl 1 (- b) else cl_shl 1 b) = 2^k"
    using assms(1,2,4) decode_fwd [of k] decode_rev [of k] by auto
  obtain e' where run: "run_gpusort_single cmp ?r (2^k) kg (word_of_nat t) StromError_Success = Some (kg', e')"
    using assms(5) by (auto simp: gpusort_single_def ub)
  have 2: "result_index kg' = result_index kg
          \<or> result_index kg' = (result_index kg)[unat idx0 := result_index kg ! unat idx1,
                                                  unat idx1 := result_index kg ! unat idx0]"
    using run assms(6,7)
    by (auto simp: run_gpusort_single_def Let_def split: if_splits prod.splits)
  have 3: "mset (result_index kg') = mset (result_index kg)"
    using gpusort_single_frame [OF assms(5)] by simp
  have 4: "\<forall>G kg''. gpusort_single_pass cmp b G kg = Some kg''
              \<longrightarrow> mset (result_index kg'') = mset (result_index kg)"
    using gpusort_single_lanes_frame [of cmp b _ kg] by (auto simp: gpusort_single_pass_def)
  from 1 2 3 4 show ?thesis by blast
qed

theorem gpusort_single_swap_or_skip_witness:
  "lane_idx0 (2^2) (word_of_nat 3) <s lane_idx1 ((- word_of_nat 2 :: cl_int) <s 0) (2^2) (lane_idx0 (2^2) (word_of_nat 3))
   \<and> gpusort_single key_comp (- word_of_nat 2) chunk8 (word_of_nat 3)
       = Some (chunk8\<lparr>result_index := [0, 1, 2, 3, 4, 6, 5, 7]\<rparr>)
   \<and> mset [0, 1, 2, 3, 4, 6, 5, 7 :: cl_int] = mset (result_index chunk8)"
proof -
  have run: "gpusort_single key_comp (- word_of_nat 2) chunk8 (word_of_nat 3)
               = Some (chunk8\<lparr>result_index := [0, 1, 2, 3, 4, 6, 5, 7]\<rparr>)"
    by code_simp
  have "(1::nat) \<le> 2" "(2::nat) \<le> 30" "(3::nat) < 2^30"
    "(- word_of_nat 2 :: cl_int) = word_of_nat 2 \<or> (- word_of_nat 2 :: cl_int) = - word_of_nat 2"
    by simp_all
  from gpusort_single_swap_or_skip [OF this run refl refl] run
  show ?thesis by simp
qed

text \<open>
  Claim C6. For a unit size \<open>u = 2 ^ k\<close> with \<open>1 \<le> k \<le> 30\<close> and a thread id \<open>t < 2 ^ 30\<close>, the lane
  owns \<open>idx0 = (t div (u div 2)) * u + t mod (u div 2)\<close>. When reversing, the partner \<open>idx1\<close> is
  \<open>idx0\<close> with every bit below the unit size complemented and the bits above kept, which is
  \<open>(idx0 div u) * u + (u - 1 - idx0 mod u)\<close>; otherwise it is \<open>idx0 + u div 2\<close>. A lane whose
  partner is at or beyond the row count returns the chunk unchanged. A lane whose partner is
  below the row count and inside the index array calls the comparator on the two rows that
  the entries at \<open>idx0\<close> and \<open>idx1\<close> refer to, in this order, and returns the chunk with these two
  entries swapped when the comparator's result is above 0, and the chunk unchanged
  otherwise; this holds for \<^verbatim>\<open>run_gpusort_single\<close> with any direction and incoming error code,
  and for the kernel \<^verbatim>\<open>gpusort_single\<close>.
\<close>

theorem gpusort_single_lane_pair:
  assumes "1 \<le> k" "k \<le> 30" "t < 2^30"
    and "idx0 = lane_idx0 (2^k) (word_of_nat t)"
  shows "unat idx0 = (t div (2^k div 2)) * 2^k + t mod (2^k div 2)
       \<and> (\<forall>j<32. bit (lane_idx1 True (2^k) idx0) j = (if j < k then \<not> bit idx0 j else bit idx0 j))
       \<and> unat (lane_idx1 True (2^k) idx0) = (unat idx0 div 2^k) * 2^k + (2^k - 1 - unat idx0 mod 2^k)
       \<and> unat (lane_idx1 False (2^k) idx0) = unat idx0 + 2^k div 2
       \<and> (\<forall>r e. nrows kg \<le>s lane_idx1 r (2^k) idx0
              \<longrightarrow> run_gpusort_single cmp r (2^k) kg (word_of_nat t) e = Some (kg, e))
       \<and> (\<forall>b. (b = word_of_nat k \<or> b = - word_of_nat k) \<and> nrows kg \<le>s lane_idx1 (b <s 0) (2^k) idx0
              \<longrightarrow> gpusort_single cmp b kg (word_of_nat t) = Some kg)
       \<and> (\<forall>r e idx1 pos0 pos1.
              idx1 = lane_idx1 r (2^k) idx0 \<and> \<not> nrows kg \<le>s idx1
              \<and> unat idx1 < length (result_index kg)
              \<and> pos0 = result_index kg ! unat idx0 \<and> pos1 = result_index kg ! unat idx1
              \<longrightarrow> run_gpusort_single cmp r (2^k) kg (word_of_nat t) e =
                    Some (if 0 <s snd (cmp e (coldata kg) (ktoast kg) pos0 (coldata kg) (ktoast kg) pos1)
                          then kg\<lparr>result_index := (result_index kg)[unat idx0 := pos1, unat idx1 := pos0]\<rparr>
                          else kg,
                          fst (cmp e (coldata kg) (ktoast kg) pos0 (coldata kg) (ktoast kg) pos1)))
       \<and> (\<forall>b idx1 pos0 pos1.
              (b = word_of_nat k \<or> b = - word_of_nat k)
              \<and> idx1 = lane_idx1 (b <s 0) (2^k) idx0 \<and> \<not> nrows kg \<le>s idx1
              \<and> unat idx1 < length (result_index kg)
              \<and> pos0 = result_index kg ! unat idx0 \<and> pos1 = result_index kg ! unat idx1
              \<longrightarrow> gpusort_single cmp b kg (word_of_nat t) =
                    Some (if gt_of cmp (coldata kg) (ktoast kg) pos0 pos1
                          then kg\<lparr>result_index := (result_index kg)[unat idx0 := pos1, unat idx1 := pos0]\<rparr>
                          else kg))"
proof -
  obtain j where j: "k = Suc j" using assms(1) by (cases k) auto
  have u: "(2::nat)^k = 2 * 2^j" by (simp add: j)
  let ?i0 = "idx0_nat (2^k) t"
  have lt: "?i0 < idx1_nat r (2^k) ?i0" for r
    using idx0_less_idx1_nat [of "2^j" t r] by (simp add: u)
  have b1: "idx1_nat r (2^k) ?i0 < 2^31" for r using assms(1-3) by (rule idx1_nat_bound32)
  then have b0: "?i0 < 2^31" using lt [of True] by (meson less_trans)
  have w0: "idx0 = word_of_nat ?i0"
    using assms by (simp only: lane_idx0_nat)
  have u0: "unat idx0 = ?i0" using b0 by (simp add: w0 unat_of_nat32)
  have w1: "lane_idx1 r (2^k) idx0 = word_of_nat (idx1_nat r (2^k) ?i0)" for r
    using assms(1,2) by (cases r) (simp_all only: w0 lane_idx1_rev_nat lane_idx1_fwd_nat)
  have u1: "unat (lane_idx1 r (2^k) idx0) = idx1_nat r (2^k) ?i0" for r
    using b1 [of r] by (simp add: w1 unat_of_nat32)
  have 1: "unat idx0 = (t div (2^k div 2)) * 2^k + t mod (2^k div 2)"
    by (simp only: u0 idx0_nat_def)
  have 2: "\<forall>j<32. bit (lane_idx1 True (2^k) idx0) j = (if j < k then \<not> bit idx0 j else bit idx0 j)"
    by (auto simp: lane_idx1_def Let_def bit_simps simp flip: mask_eq_exp_minus_1)
  have 3: "unat (lane_idx1 True (2^k) idx0) = (unat idx0 div 2^k) * 2^k + (2^k - 1 - unat idx0 mod 2^k)"
    by (simp only: u1 u0) (simp add: idx1_nat_def)
  have 4: "unat (lane_idx1 False (2^k) idx0) = unat idx0 + 2^k div 2"
    by (simp only: u1 u0) (simp add: idx1_nat_def)
  have h: "(2^k :: 32 word) div 2 \<noteq> 0"
    using assms(1,2) by (simp add: half_pow32)
  have 5: "\<forall>r e. nrows kg \<le>s lane_idx1 r (2^k) idx0
              \<longrightarrow> run_gpusort_single cmp r (2^k) kg (word_of_nat t) e = Some (kg, e)"
    using h assms(4) by (simp add: run_gpusort_single_def Let_def)
  have ub: "(b = word_of_nat k \<or> b = - word_of_nat k)
              \<Longrightarrow> (if b <s 0 then cl_shl 1 (- b) else cl_shl 1 b) = 2^k" for b :: cl_int
    using assms(1,2) decode_fwd [of k] decode_rev [of k] by auto
  have 6: "\<forall>b. (b = word_of_nat k \<or> b = - word_of_nat k) \<and> nrows kg \<le>s lane_idx1 (b <s 0) (2^k) idx0
              \<longrightarrow> gpusort_single cmp b kg (word_of_nat t) = Some kg"
    using 5 ub by (auto simp: gpusort_single_def Let_def)
  have run: "run_gpusort_single cmp r (2^k) kg (word_of_nat t) e =
               Some (if 0 <s snd (cmp e (coldata kg) (ktoast kg) pos0 (coldata kg) (ktoast kg) pos1)
                     then kg\<lparr>result_index := (result_index kg)[unat idx0 := pos1, unat idx1 := pos0]\<rparr>
                     else kg,
                     fst (cmp e (coldata kg) (ktoast kg) pos0 (coldata kg) (ktoast kg) pos1))"
    if a: "idx1 = lane_idx1 r (2^k) idx0" "\<not> nrows kg \<le>s idx1" "unat idx1 < length (result_index kg)"
       "pos0 = result_index kg ! unat idx0" "pos1 = result_index kg ! unat idx1"
    for r e idx1 pos0 pos1
  proof -
    have i1: "idx1_nat r (2^k) ?i0 < length (result_index kg)" using a(1,3) by (simp only: u1)
    then have i0: "?i0 < length (result_index kg)" using lt [of r] by simp
    have in1: "in_bounds (result_index kg) idx1"
      using i1 b1 [of r] by (simp only: a(1) w1 in_bounds_of_nat)
    have in0: "in_bounds (result_index kg) idx0"
      using i0 b0 by (simp only: w0 in_bounds_of_nat)
    obtain e' rv where c: "cmp e (coldata kg) (ktoast kg) pos0 (coldata kg) (ktoast kg) pos1 = (e', rv)"
      by (cases "cmp e (coldata kg) (ktoast kg) pos0 (coldata kg) (ktoast kg) pos1")
    show ?thesis
      unfolding run_gpusort_single_def Let_def assms(4) [symmetric] a(1) [symmetric]
        a(4) [symmetric] a(5) [symmetric]
      using h a(2) in0 in1 by (simp add: c)
  qed
  have 7: "\<forall>r e idx1 pos0 pos1.
              idx1 = lane_idx1 r (2^k) idx0 \<and> \<not> nrows kg \<le>s idx1
              \<and> unat idx1 < length (result_index kg)
              \<and> pos0 = result_index kg ! unat idx0 \<and> pos1 = result_index kg ! unat idx1
              \<longrightarrow> run_gpusort_single cmp r (2^k) kg (word_of_nat t) e =
                    Some (if 0 <s snd (cmp e (coldata kg) (ktoast kg) pos0 (coldata kg) (ktoast kg) pos1)
                          then kg\<lparr>result_index := (result_index kg)[unat idx0 := pos1, unat idx1 := pos0]\<rparr>
                          else kg,
                          fst (cmp e (coldata kg) (ktoast kg) pos0 (coldata kg) (ktoast kg) pos1))"
    using run by blast
  have 8: "\<forall>b idx1 pos0 pos1.
              (b = word_of_nat k \<or> b = - word_of_nat k)
              \<and> idx1 = lane_idx1 (b <s 0) (2^k) idx0 \<and> \<not> nrows kg \<le>s idx1
              \<and> unat idx1 < length (result_index kg)
              \<and> pos0 = result_index kg ! unat idx0 \<and> pos1 = result_index kg ! unat idx1
              \<longrightarrow> gpusort_single cmp b kg (word_of_nat t) =
                    Some (if gt_of cmp (coldata kg) (ktoast kg) pos0 pos1
                          then kg\<lparr>result_index := (result_index kg)[unat idx0 := pos1, unat idx1 := pos0]\<rparr>
                          else kg)"
  proof (intro allI impI)
    fix b :: cl_int and idx1 pos0 pos1
    assume a: "(b = word_of_nat k \<or> b = - word_of_nat k)
              \<and> idx1 = lane_idx1 (b <s 0) (2^k) idx0 \<and> \<not> nrows kg \<le>s idx1
              \<and> unat idx1 < length (result_index kg)
              \<and> pos0 = result_index kg ! unat idx0 \<and> pos1 = result_index kg ! unat idx1"
    then have a': "idx1 = lane_idx1 (b <s 0) (2^k) idx0" "\<not> nrows kg \<le>s idx1"
      "unat idx1 < length (result_index kg)"
      "pos0 = result_index kg ! unat idx0" "pos1 = result_index kg ! unat idx1"
      by blast+
    have "run_gpusort_single cmp (b <s 0) (2^k) kg (word_of_nat t) StromError_Success =
               Some (if 0 <s snd (cmp StromError_Success (coldata kg) (ktoast kg) pos0 (coldata kg) (ktoast kg) pos1)
                     then kg\<lparr>result_index := (result_index kg)[unat idx0 := pos1, unat idx1 := pos0]\<rparr>
                     else kg,
                     fst (cmp StromError_Success (coldata kg) (ktoast kg) pos0 (coldata kg) (ktoast kg) pos1))"
      by (rule run [OF a'])
    then show "gpusort_single cmp b kg (word_of_nat t) =
                    Some (if gt_of cmp (coldata kg) (ktoast kg) pos0 pos1
                          then kg\<lparr>result_index := (result_index kg)[unat idx0 := pos1, unat idx1 := pos0]\<rparr>
                          else kg)"
      using a ub [of b] by (simp add: gpusort_single_def gt_of_def)
  qed
  from 1 2 3 4 5 6 7 8 show ?thesis by blast
qed

theorem gpusort_single_lane_pair_witness:
  "unat (lane_idx0 (2^2) (word_of_nat 3)) = 5
   \<and> unat (lane_idx1 True (2^2) (lane_idx0 (2^2) (word_of_nat 3))) = 6
   \<and> unat (lane_idx1 False (2^2) (lane_idx0 (2^2) (word_of_nat 3))) = 7
   \<and> gpusort_single key_comp (- word_of_nat 2) (chunk8\<lparr>nrows := 6\<rparr>) (word_of_nat 3)
       = Some (chunk8\<lparr>nrows := 6\<rparr>)
   \<and> gpusort_single key_comp (- word_of_nat 2) chunk8 (word_of_nat 3)
       = Some (chunk8\<lparr>result_index := [0, 1, 2, 3, 4, 6, 5, 7]\<rparr>)"
proof -
  let ?idx0 = "lane_idx0 (2^2) (word_of_nat 3) :: cl_int"
  let ?idx1 = "lane_idx1 ((- word_of_nat 2 :: cl_int) <s 0) (2^2) ?idx0"
  have le: "nrows (chunk8\<lparr>nrows := 6\<rparr>) \<le>s ?idx1"
    by code_simp
  have k: "(1::nat) \<le> 2" "(2::nat) \<le> 30" "(3::nat) < 2^30" by simp_all
  have live: "\<not> nrows chunk8 \<le>s ?idx1" "unat ?idx1 < length (result_index chunk8)"
    by code_simp+
  have gt: "gt_of key_comp (coldata chunk8) (ktoast chunk8)
              (result_index chunk8 ! unat ?idx0) (result_index chunk8 ! unat ?idx1)"
    by code_simp
  have sw: "chunk8\<lparr>result_index := (result_index chunk8)
              [unat ?idx0 := result_index chunk8 ! unat ?idx1,
               unat ?idx1 := result_index chunk8 ! unat ?idx0]\<rparr>
            = chunk8\<lparr>result_index := [0, 1, 2, 3, 4, 6, 5, 7]\<rparr>"
    by code_simp
  from gpusort_single_lane_pair [OF k refl, of "chunk8\<lparr>nrows := 6\<rparr>" key_comp] le
  have a: "unat ?idx0 = 5 \<and> unat (lane_idx1 True (2^2) ?idx0) = 6
           \<and> unat (lane_idx1 False (2^2) ?idx0) = 7
           \<and> gpusort_single key_comp (- word_of_nat 2) (chunk8\<lparr>nrows := 6\<rparr>) (word_of_nat 3)
               = Some (chunk8\<lparr>nrows := 6\<rparr>)"
    by simp
  from gpusort_single_lane_pair [OF k refl, of chunk8 key_comp] live gt
  have "gpusort_single key_comp (- word_of_nat 2) chunk8 (word_of_nat 3)
          = Some (chunk8\<lparr>result_index := (result_index chunk8)
              [unat ?idx0 := result_index chunk8 ! unat ?idx1,
               unat ?idx1 := result_index chunk8 ! unat ?idx0]\<rparr>)"
    by simp
  with a sw show ?thesis by simp
qed

text \<open>
  Claim C4. The header says of \<^verbatim>\<open>gpusort_single\<close> that "result buffer (a part of kchunk) and
  status shall be written back", and \<^verbatim>\<open>gpusort_setup_chunk_rs\<close> ends with
  \<^verbatim>\<open>kern_writeback_error_status\<close>; \<^verbatim>\<open>gpusort_single\<close> does not. On a chunk of two rows whose
  comparator faults, \<^verbatim>\<open>run_gpusort_single\<close> hands back the fault in \<^verbatim>\<open>errcode\<close> and has swapped
  the two entries, and the kernel leaves the chunk's status at \<^verbatim>\<open>StromError_Success\<close>.
\<close>

theorem gpusort_single_fault_not_reported:
  "run_gpusort_single faulting_comp False 2 chunk2 0 StromError_Success
     = Some (chunk2\<lparr>result_index := [1, 0]\<rparr>, StromError_Fault)
   \<and> map_option result_index (gpusort_single faulting_comp 1 chunk2 0) = Some [1, 0]
   \<and> map_option status (gpusort_single faulting_comp 1 chunk2 0) = Some StromError_Success"
  by code_simp

section \<open>Half-cleaners on bitonic sequences of truth values\<close>

lemma hc_low_mid:
  assumes "p \<le> q" "q \<le> 2 * h"
  shows "\<exists>p' q'. p' \<le> q' \<and> q' \<le> h \<and> (\<forall>s<h. (ones_mid p q s \<and> ones_mid p q (s + h)) = ones_mid p' q' s)"
proof (intro exI conjI allI impI)
  let ?p = "min p h" and ?q = "max (min p h) (q - h)"
  show "?p \<le> ?q" by simp
  show "?q \<le> h" using assms by auto
  fix s assume "s < h"
  then show "(ones_mid p q s \<and> ones_mid p q (s + h)) = ones_mid ?p ?q s"
    using assms by (auto simp: ones_mid_def)
qed

lemma hc_high_mid:
  assumes "p \<le> q" "q \<le> 2 * h"
  shows "\<exists>p' q'. p' \<le> q' \<and> q' \<le> h \<and>
           ((\<forall>s<h. (ones_mid p q s \<or> ones_mid p q (s + h)) = ones_mid p' q' s)
            \<or> (\<forall>s<h. (ones_mid p q s \<or> ones_mid p q (s + h)) = (\<not> ones_mid p' q' s)))"
proof -
  consider (full) "h \<le> q - p" | (lo) "q - p < h" "q \<le> h" | (hi) "q - p < h" "h \<le> p"
    | (wrap) "q - p < h" "p < h" "h < q"
    by linarith
  then show ?thesis
  proof cases
    case full
    have "\<forall>s<h. (ones_mid p q s \<or> ones_mid p q (s + h)) = (\<not> ones_mid 0 0 s)"
      using full assms by (auto simp: ones_mid_def)
    then show ?thesis by (intro exI [of _ 0]) auto
  next
    case lo
    have "\<forall>s<h. (ones_mid p q s \<or> ones_mid p q (s + h)) = ones_mid p q s"
      using lo assms by (auto simp: ones_mid_def)
    then show ?thesis using assms lo by blast
  next
    case hi
    have "\<forall>s<h. (ones_mid p q s \<or> ones_mid p q (s + h)) = ones_mid (p - h) (q - h) s"
      using hi assms by (auto simp: ones_mid_def)
    moreover have "p - h \<le> q - h" "q - h \<le> h" using assms by auto
    ultimately show ?thesis by blast
  next
    case wrap
    have "\<forall>s<h. (ones_mid p q s \<or> ones_mid p q (s + h)) = (\<not> ones_mid (q - h) p s)"
      using wrap assms by (auto simp: ones_mid_def)
    moreover have "q - h \<le> p" "p \<le> h" using wrap by auto
    ultimately show ?thesis by blast
  qed
qed

lemma hc_order_mid:
  assumes "p \<le> q" "q \<le> 2 * h" "s < h" "ones_mid p q s \<and> ones_mid p q (s + h)" "t < h"
  shows "ones_mid p q t \<or> ones_mid p q (t + h)"
  using assms by (auto simp: ones_mid_def)

lemma bitonic01_mid:
  "p \<le> q \<Longrightarrow> q \<le> w \<Longrightarrow> (\<And>s. s < w \<Longrightarrow> a (base + s) = ones_mid p q s) \<Longrightarrow> bitonic01 a base w"
  unfolding bitonic01_def ones_mid_def by blast

lemma bitonic01_out:
  "p \<le> q \<Longrightarrow> q \<le> w \<Longrightarrow> (\<And>s. s < w \<Longrightarrow> a (base + s) = (\<not> ones_mid p q s)) \<Longrightarrow> bitonic01 a base w"
  unfolding bitonic01_def ones_mid_def by blast

lemma half_cleaner_block:
  assumes bit: "bitonic01 a base (2 * h)"
    and low: "\<forall>s<h. a' (base + s) = (a (base + s) \<and> a (base + s + h))"
    and high: "\<forall>s<h. a' (base + h + s) = (a (base + h + s) \<or> a (base + s))"
  shows "bitonic01 a' base h \<and> bitonic01 a' (base + h) h
         \<and> (\<forall>s<h. \<forall>t<h. a' (base + s) \<longrightarrow> a' (base + h + t))"
proof -
  from bit obtain p q where pq: "p \<le> q" "q \<le> 2 * h"
    and ty: "(\<forall>s<2 * h. a (base + s) = ones_mid p q s) \<or> (\<forall>s<2 * h. a (base + s) = (\<not> ones_mid p q s))"
    unfolding bitonic01_def ones_mid_def by blast
  from hc_low_mid [OF pq] obtain p1 q1 where l1: "p1 \<le> q1" "q1 \<le> h"
    and l2: "\<forall>s<h. (ones_mid p q s \<and> ones_mid p q (s + h)) = ones_mid p1 q1 s" by blast
  from hc_high_mid [OF pq] obtain p2 q2 where h1: "p2 \<le> q2" "q2 \<le> h"
    and h2: "(\<forall>s<h. (ones_mid p q s \<or> ones_mid p q (s + h)) = ones_mid p2 q2 s)
            \<or> (\<forall>s<h. (ones_mid p q s \<or> ones_mid p q (s + h)) = (\<not> ones_mid p2 q2 s))" by blast
  have ord: "ones_mid p q t \<or> ones_mid p q (t + h)"
    if "s < h" "ones_mid p q s \<and> ones_mid p q (s + h)" "t < h" for s t
    using hc_order_mid [OF pq that] .
  from ty show ?thesis
  proof
    assume a1: "\<forall>s<2 * h. a (base + s) = ones_mid p q s"
    have lo: "a' (base + s) = (ones_mid p q s \<and> ones_mid p q (s + h))" if "s < h" for s
      using that low a1 by (simp add: add.assoc)
    have hi: "a' (base + h + s) = (ones_mid p q s \<or> ones_mid p q (s + h))" if "s < h" for s
      using that high a1 by (auto simp: add.assoc add.commute [of h s])
    have 1: "bitonic01 a' base h"
      using l1 by (rule bitonic01_mid) (simp add: lo l2)
    have 2: "bitonic01 a' (base + h) h"
      using h2
    proof
      assume "\<forall>s<h. (ones_mid p q s \<or> ones_mid p q (s + h)) = ones_mid p2 q2 s"
      with h1 show ?thesis by (intro bitonic01_mid [of p2 q2]) (simp_all add: hi)
    next
      assume "\<forall>s<h. (ones_mid p q s \<or> ones_mid p q (s + h)) = (\<not> ones_mid p2 q2 s)"
      with h1 show ?thesis by (intro bitonic01_out [of p2 q2]) (simp_all add: hi)
    qed
    have 3: "\<forall>s<h. \<forall>t<h. a' (base + s) \<longrightarrow> a' (base + h + t)"
      using lo hi ord by blast
    from 1 2 3 show ?thesis by blast
  next
    assume a2: "\<forall>s<2 * h. a (base + s) = (\<not> ones_mid p q s)"
    have lo: "a' (base + s) = (\<not> (ones_mid p q s \<or> ones_mid p q (s + h)))" if "s < h" for s
      using that low a2 by (simp add: add.assoc)
    have hi: "a' (base + h + s) = (\<not> (ones_mid p q s \<and> ones_mid p q (s + h)))" if "s < h" for s
      using that high a2 by (auto simp: add.assoc add.commute [of h s])
    have 1: "bitonic01 a' base h"
      using h2
    proof
      assume "\<forall>s<h. (ones_mid p q s \<or> ones_mid p q (s + h)) = ones_mid p2 q2 s"
      with h1 show ?thesis by (intro bitonic01_out [of p2 q2]) (simp_all add: lo)
    next
      assume "\<forall>s<h. (ones_mid p q s \<or> ones_mid p q (s + h)) = (\<not> ones_mid p2 q2 s)"
      with h1 show ?thesis by (intro bitonic01_mid [of p2 q2]) (simp_all add: lo)
    qed
    have 2: "bitonic01 a' (base + h) h"
      using l1 by (rule bitonic01_out) (simp add: hi l2)
    have 3: "\<forall>s<h. \<forall>t<h. a' (base + s) \<longrightarrow> a' (base + h + t)"
      using lo hi ord by blast
    from 1 2 3 show ?thesis by blast
  qed
qed

lemma rev_block:
  assumes p: "p \<le> h" "\<forall>s<h. a (base + s) = (p \<le> s)"
    and q: "q \<le> h" "\<forall>s<h. a (base + h + s) = (q \<le> s)"
    and low: "\<forall>s<h. a' (base + s) = (a (base + s) \<and> a (base + h + (h - 1 - s)))"
    and high: "\<forall>s<h. a' (base + h + s) = (a (base + h + s) \<or> a (base + (h - 1 - s)))"
  shows "bitonic01 a' base h \<and> bitonic01 a' (base + h) h
         \<and> (\<forall>s<h. \<forall>t<h. a' (base + s) \<longrightarrow> a' (base + h + t))"
proof -
  have lo: "a' (base + s) = (p \<le> s \<and> s + q < h)" if "s < h" for s
  proof -
    have "h - 1 - s < h" using that by simp
    then have "a (base + h + (h - 1 - s)) = (q \<le> h - 1 - s)" using q(2) by blast
    then show ?thesis using that low p(2) by auto
  qed
  have hi: "a' (base + h + s) = (\<not> (h \<le> s + p \<and> s < q))" if "s < h" for s
  proof -
    have "h - 1 - s < h" using that by simp
    then have "a (base + (h - 1 - s)) = (p \<le> h - 1 - s)" using p(2) by blast
    then show ?thesis using that high q(2) by auto
  qed
  have 1: "bitonic01 a' base h"
    unfolding bitonic01_def
  proof (intro exI conjI disjI1 allI impI)
    show "p \<le> max p (h - q)" by simp
    show "max p (h - q) \<le> h" using p(1) by simp
    fix s assume "s < h"
    then show "a' (base + s) = (p \<le> s \<and> s < max p (h - q))" using lo by auto
  qed
  have 2: "bitonic01 a' (base + h) h"
    unfolding bitonic01_def
  proof (intro exI conjI disjI2 allI impI)
    show "min (h - p) q \<le> q" by simp
    show "q \<le> h" by (rule q(1))
    fix s assume "s < h"
    then show "a' (base + h + s) = (\<not> (min (h - p) q \<le> s \<and> s < q))" using hi by auto
  qed
  have 3: "\<forall>s<h. \<forall>t<h. a' (base + s) \<longrightarrow> a' (base + h + t)"
    using lo hi by auto
  from 1 2 3 show ?thesis by blast
qed

lemma mono_threshold:
  "(\<And>s t. s \<le> t \<Longrightarrow> t < w \<Longrightarrow> f s \<Longrightarrow> f t) \<Longrightarrow> \<exists>p\<le>w. \<forall>s<w. f s = (p \<le> s)"
  for w :: nat
proof (induction w)
  case 0
  then show ?case by simp
next
  case (Suc w)
  have "\<And>s t. s \<le> t \<Longrightarrow> t < w \<Longrightarrow> f s \<Longrightarrow> f t" using Suc.prems by auto
  with Suc.IH obtain p where p: "p \<le> w" "\<forall>s<w. f s = (p \<le> s)" by blast
  show ?case
  proof (cases "p < w")
    case True
    then have "f p" using p by simp
    then have "f w" using Suc.prems [of p w] True by auto
    then have "\<forall>s<Suc w. f s = (p \<le> s)" using p True by (auto simp: less_Suc_eq)
    then show ?thesis using p(1) by (intro exI [of _ p]) auto
  next
    case False
    then have pw: "p = w" using p(1) by simp
    show ?thesis
    proof (cases "f w")
      case True
      then have "\<forall>s<Suc w. f s = (w \<le> s)" using p pw by (auto simp: less_Suc_eq)
      then show ?thesis by (intro exI [of _ w]) auto
    next
      case False
      then have "\<forall>s<Suc w. f s = (Suc w \<le> s)" using p pw by (auto simp: less_Suc_eq)
      then show ?thesis by (intro exI [of _ "Suc w"]) auto
    qed
  qed
qed

section \<open>A pass on truth values, in the coordinates of a unit\<close>

lemma block_div: "s < w \<Longrightarrow> (c * w + s) div w = c" for w :: nat
  by simp

lemma block_mod: "s < w \<Longrightarrow> (c * w + s) mod w = s" for w :: nat
  by simp

lemma bpass_rev_low:
  assumes "s < h"
  shows "bpass True h a (c * (2 * h) + s) = (a (c * (2 * h) + s) \<and> a (c * (2 * h) + h + (h - 1 - s)))"
proof -
  have s2: "s < 2 * h" using assms by simp
  have "2 * h - 1 - s = h + (h - 1 - s)" using assms by simp
  then show ?thesis
    using assms by (simp add: bpass_def partner_def block_div [OF s2] block_mod [OF s2] add.assoc)
qed

lemma bpass_rev_high:
  assumes "s < h"
  shows "bpass True h a (c * (2 * h) + h + s) = (a (c * (2 * h) + h + s) \<or> a (c * (2 * h) + (h - 1 - s)))"
proof -
  have s2: "h + s < 2 * h" using assms by simp
  have "2 * h - 1 - (h + s) = h - 1 - s" using assms by simp
  then show ?thesis
    using assms by (simp add: bpass_def partner_def block_div [OF s2] block_mod [OF s2] add.assoc)
qed

lemma bpass_fwd_low:
  assumes "s < h"
  shows "bpass False h a (c * (2 * h) + s) = (a (c * (2 * h) + s) \<and> a (c * (2 * h) + s + h))"
proof -
  have s2: "s < 2 * h" using assms by simp
  show ?thesis
    using assms by (simp add: bpass_def partner_def block_mod [OF s2])
qed

lemma bpass_fwd_high:
  assumes "s < h"
  shows "bpass False h a (c * (2 * h) + h + s) = (a (c * (2 * h) + h + s) \<or> a (c * (2 * h) + s))"
proof -
  have s2: "h + s < 2 * h" using assms by simp
  show ?thesis
    using assms by (simp add: bpass_def partner_def block_mod [OF s2] add.assoc)
qed

lemma half_coords:
  fixes h i :: nat
  assumes "0 < h"
  obtains (low) c s where "i = c * (2 * h) + s" "s < h" "i div h = 2 * c" "i div (2 * h) = c"
    | (high) c s where "i = c * (2 * h) + h + s" "s < h" "i div h = 2 * c + 1" "i div (2 * h) = c"
proof (cases "i mod (2 * h) < h")
  case True
  let ?c = "i div (2 * h)" and ?s = "i mod (2 * h)"
  have i: "i = ?c * (2 * h) + ?s" by (rule div_mult_mod_eq [symmetric])
  then have "i = (2 * ?c) * h + ?s" by (simp only: mult.assoc mult.left_commute mult.commute)
  then have d: "i div h = 2 * ?c" using True block_div [of ?s h "2 * ?c"] by metis
  show ?thesis
  proof (rule low)
    show "i = ?c * (2 * h) + ?s" by (rule i)
    show "?s < h" by (rule True)
    show "i div h = 2 * ?c" by (rule d)
    show "i div (2 * h) = ?c" by simp
  qed
next
  case False
  let ?c = "i div (2 * h)" and ?s = "i mod (2 * h) - h"
  have m: "i mod (2 * h) < 2 * h" using assms by simp
  then have s: "?s < h" using False by simp
  have "i = ?c * (2 * h) + i mod (2 * h)" by (rule div_mult_mod_eq [symmetric])
  then have i: "i = ?c * (2 * h) + h + ?s" using False by linarith
  then have "i = (2 * ?c + 1) * h + ?s" by (simp only: algebra_simps)
  then have d: "i div h = 2 * ?c + 1" using s block_div [of ?s h "2 * ?c + 1"] by metis
  show ?thesis
  proof (rule high)
    show "i = ?c * (2 * h) + h + ?s" by (rule i)
    show "?s < h" by (rule s)
    show "i div h = 2 * ?c + 1" by (rule d)
    show "i div (2 * h) = ?c" by simp
  qed
qed

section \<open>The reversing pass and the half-cleaner keep the invariant\<close>

lemma bitonic_all_blocks:
  assumes "\<And>c. bitonic01 a (c * (2 * h)) h" "\<And>c. bitonic01 a (c * (2 * h) + h) h"
  shows "bitonic01 a (c' * h) h"
proof (cases "even c'")
  case True
  then obtain c where c: "c' = 2 * c" by (auto elim: evenE)
  have "c' * h = c * (2 * h)" unfolding c by simp
  then show ?thesis using assms(1) [of c] by (simp only:)
next
  case False
  then obtain c where c: "c' = 2 * c + 1" by (auto elim: oddE)
  have "c' * h = c * (2 * h) + h" unfolding c by simp
  then show ?thesis using assms(2) [of c] by (simp only:)
qed

lemma cross_halves:
  fixes h i j :: nat
  assumes h: "0 < h" and ij: "i < j" "i div (2 * h) = j div (2 * h)" "i div h \<noteq> j div h"
  obtains c s t where "i = c * (2 * h) + s" "s < h" "j = c * (2 * h) + h + t" "t < h"
proof (rule half_coords [OF h, of i]; rule half_coords [OF h, of j])
  fix c s c2 s2
  assume "i = c * (2 * h) + s" "s < h" "i div h = 2 * c" "i div (2 * h) = c"
    and "j = c2 * (2 * h) + s2" "s2 < h" "j div h = 2 * c2" "j div (2 * h) = c2"
  then show thesis using ij by simp
next
  fix c s c2 t
  assume i: "i = c * (2 * h) + s" "s < h" "i div h = 2 * c" "i div (2 * h) = c"
    and j: "j = c2 * (2 * h) + h + t" "t < h" "j div h = 2 * c2 + 1" "j div (2 * h) = c2"
  then have "c2 = c" using ij by simp
  then show thesis using i j that by blast
next
  fix c s c2 s2
  assume i: "i = c * (2 * h) + h + s" "s < h" "i div h = 2 * c + 1" "i div (2 * h) = c"
    and j: "j = c2 * (2 * h) + s2" "s2 < h" "j div h = 2 * c2" "j div (2 * h) = c2"
  then have "c2 = c" using ij by simp
  then have "j < i" using i j by simp
  then show thesis using ij by simp
next
  fix c s c2 t
  assume "i = c * (2 * h) + h + s" "s < h" "i div h = 2 * c + 1" "i div (2 * h) = c"
    and "j = c2 * (2 * h) + h + t" "t < h" "j div h = 2 * c2 + 1" "j div (2 * h) = c2"
  then show thesis using ij by simp
qed

lemma rev_step:
  assumes h: "0 < h" and srt: "blocks_sorted h a"
  shows "merge_inv h (2 * h) (bpass True h a)"
proof -
  let ?a' = "bpass True h a"
  have blk: "bitonic01 ?a' (c * (2 * h)) h \<and> bitonic01 ?a' (c * (2 * h) + h) h
             \<and> (\<forall>s<h. \<forall>t<h. ?a' (c * (2 * h) + s) \<longrightarrow> ?a' (c * (2 * h) + h + t))" for c
  proof -
    let ?b = "c * (2 * h)"
    have dl: "(?b + s) div h = 2 * c" if "s < h" for s
      using block_div [OF that, of "2 * c"] by (simp add: mult.assoc mult.left_commute mult.commute)
    have dh: "(?b + h + s) div h = 2 * c + 1" if "s < h" for s
      using block_div [OF that, of "2 * c + 1"] by (simp add: algebra_simps)
    have m1: "\<And>s t. s \<le> t \<Longrightarrow> t < h \<Longrightarrow> a (?b + s) \<Longrightarrow> a (?b + t)"
    proof -
      fix s t assume st: "s \<le> t" "t < h" "a (?b + s)"
      then have "(?b + s) div h = (?b + t) div h" using dl [of s] dl [of t] by simp
      with st srt show "a (?b + t)" unfolding blocks_sorted_def by (meson add_le_cancel_left)
    qed
    obtain p where p: "p \<le> h" "\<forall>s<h. a (?b + s) = (p \<le> s)"
      using mono_threshold [where w = h and f = "\<lambda>s. a (?b + s)"] m1 by blast
    have m2: "\<And>s t. s \<le> t \<Longrightarrow> t < h \<Longrightarrow> a (?b + h + s) \<Longrightarrow> a (?b + h + t)"
    proof -
      fix s t assume st: "s \<le> t" "t < h" "a (?b + h + s)"
      then have "(?b + h + s) div h = (?b + h + t) div h" using dh [of s] dh [of t] by simp
      with st srt show "a (?b + h + t)" unfolding blocks_sorted_def by (meson add_le_cancel_left)
    qed
    obtain q where q: "q \<le> h" "\<forall>s<h. a (?b + h + s) = (q \<le> s)"
      using mono_threshold [where w = h and f = "\<lambda>s. a (?b + h + s)"] m2 by blast
    show ?thesis
      using p q by (rule rev_block) (simp_all add: bpass_rev_low bpass_rev_high)
  qed
  have 1: "bitonic01 ?a' (c' * h) h" for c'
    using blk by (intro bitonic_all_blocks) blast+
  have 2: "?a' j" if "i < j" "i div (2 * h) = j div (2 * h)" "i div h \<noteq> j div h" "?a' i" for i j
  proof -
    from h that(1-3) obtain c s t where "i = c * (2 * h) + s" "s < h" "j = c * (2 * h) + h + t" "t < h"
      by (rule cross_halves)
    then show ?thesis using blk [of c] that(4) by blast
  qed
  from 1 2 show ?thesis unfolding merge_inv_def by blast
qed

lemma partner_same_block:
  fixes h i :: nat
  assumes "0 < h"
  shows "partner False h i div (2 * h) = i div (2 * h)"
proof (rule half_coords [OF assms, of i])
  fix c s assume i: "i = c * (2 * h) + s" "s < h" "i div h = 2 * c" "i div (2 * h) = c"
  have "s + h < 2 * h" using i(2) by simp
  then have "(c * (2 * h) + (s + h)) div (2 * h) = c" by (rule block_div)
  moreover have "i mod (2 * h) = s" using i(1,2) block_mod [of s "2 * h" c] by simp
  ultimately show ?thesis using i by (simp add: partner_def add.assoc)
next
  fix c s assume i: "i = c * (2 * h) + h + s" "s < h" "i div h = 2 * c + 1" "i div (2 * h) = c"
  have "s < 2 * h" using i(2) by simp
  then have "(c * (2 * h) + s) div (2 * h) = c" by (rule block_div)
  moreover have "h + s < 2 * h" using i(2) by simp
  then have "i mod (2 * h) = h + s" using i(1) block_mod [of "h + s" "2 * h" c] by (simp add: add.assoc)
  ultimately show ?thesis using i by (simp add: partner_def)
qed

lemma bpass_imp_some:
  "bpass r h a i \<Longrightarrow> a i \<or> a (partner r h i)"
  by (auto simp: bpass_def split: if_splits)

lemma bpass_if_both:
  "a i \<Longrightarrow> a (partner r h i) \<Longrightarrow> bpass r h a i"
  by (auto simp: bpass_def)

lemma div_less_imp_less:
  fixes w :: nat
  shows "e div w < y div w \<Longrightarrow> e < y"
  by (metis div_le_mono leD leI)

lemma same_big_block:
  fixes w U :: nat
  assumes "w dvd U" "e div w = i div w"
  shows "e div U = i div U"
proof -
  from assms(1) obtain m where "U = w * m" by (rule dvdE)
  then show ?thesis using assms(2) by (simp add: div_mult2_eq)
qed

lemma fwd_step:
  assumes h: "0 < h" and dv: "(2 * h) dvd U" and inv: "merge_inv (2 * h) U a"
  shows "merge_inv h U (bpass False h a)"
proof -
  let ?a' = "bpass False h a"
  have bit: "bitonic01 a (c * (2 * h)) (2 * h)" for c
    using inv unfolding merge_inv_def by blast
  have ord: "a y" if "e < y" "e div U = y div U" "e div (2 * h) \<noteq> y div (2 * h)" "a e" for e y
    using inv that unfolding merge_inv_def by blast
  have blk: "bitonic01 ?a' (c * (2 * h)) h \<and> bitonic01 ?a' (c * (2 * h) + h) h
             \<and> (\<forall>s<h. \<forall>t<h. ?a' (c * (2 * h) + s) \<longrightarrow> ?a' (c * (2 * h) + h + t))" for c
    using bit [of c] by (rule half_cleaner_block) (simp_all add: bpass_fwd_low bpass_fwd_high)
  have 1: "bitonic01 ?a' (c' * h) h" for c'
    using blk by (intro bitonic_all_blocks) blast+
  have 2: "?a' j" if ij: "i < j" "i div U = j div U" "i div h \<noteq> j div h" and ai: "?a' i" for i j
  proof (cases "i div (2 * h) = j div (2 * h)")
    case True
    from h ij(1) True ij(3) obtain c s t
      where "i = c * (2 * h) + s" "s < h" "j = c * (2 * h) + h + t" "t < h"
      by (rule cross_halves)
    then show ?thesis using blk [of c] ai by blast
  next
    case False
    have lt: "i div (2 * h) < j div (2 * h)"
      using False ij(1) by (meson div_le_mono less_imp_le_nat nat_less_le)
    obtain e where e: "a e" "e div (2 * h) = i div (2 * h)"
      using bpass_imp_some [OF ai] partner_same_block [OF h, of i] by auto
    have tgt: "a y" if y: "y div (2 * h) = j div (2 * h)" for y
    proof (rule ord [of e y])
      show "e < y" using lt e(2) y by (intro div_less_imp_less [of e "2 * h" y]) simp
      show "e div U = y div U"
        using same_big_block [OF dv e(2)] same_big_block [OF dv y] ij(2) by simp
      show "e div (2 * h) \<noteq> y div (2 * h)" using lt e(2) y by simp
      show "a e" by (rule e(1))
    qed
    show ?thesis
      by (rule bpass_if_both) (simp_all add: tgt partner_same_block [OF h])
  qed
  from 1 2 show ?thesis unfolding merge_inv_def by blast
qed

lemma merge_inv_1_sorted:
  assumes "merge_inv 1 U a"
  shows "blocks_sorted U a"
  unfolding blocks_sorted_def
proof (intro allI impI)
  fix i j assume ij: "i \<le> j \<and> i div U = j div U" and ai: "a i"
  show "a j"
  proof (cases "i = j")
    case True
    then show ?thesis using ai by simp
  next
    case False
    then have "i < j" "i div 1 \<noteq> j div 1" using ij by simp_all
    then show ?thesis using assms ij ai unfolding merge_inv_def by blast
  qed
qed

lemma blocks_sorted_1: "blocks_sorted 1 a"
  by (simp add: blocks_sorted_def)

lemma bfwd_inv:
  "merge_inv (2 ^ j) U a \<Longrightarrow> (2 ^ j) dvd U \<Longrightarrow> merge_inv 1 U (bfwd j a)"
proof (induction j arbitrary: a)
  case 0
  then show ?case by simp
next
  case (Suc j)
  have "merge_inv (2 ^ j) U (bpass False (2 ^ j) a)"
    using Suc.prems by (intro fwd_step) simp_all
  moreover have "(2::nat) ^ j dvd U" using Suc.prems(2) by (auto elim: dvd_mult_left)
  ultimately show ?case using Suc.IH by simp
qed

lemma bstage_sorted:
  assumes "blocks_sorted (2 ^ j) a"
  shows "blocks_sorted (2 ^ Suc j) (bstage j a)"
proof -
  have "merge_inv (2 ^ j) (2 * 2 ^ j) (bpass True (2 ^ j) a)"
    using assms by (intro rev_step) simp_all
  then have "merge_inv 1 (2 * 2 ^ j) (bstage j a)"
    unfolding bstage_def by (rule bfwd_inv) simp
  then show ?thesis using merge_inv_1_sorted by simp
qed

lemma bsort_sorted: "blocks_sorted (2 ^ K) (bsort K a)"
proof (induction K)
  case 0
  then show ?case using blocks_sorted_1 [of a] by simp
next
  case (Suc K)
  then show ?case using bstage_sorted [of K "bsort K a"] by simp
qed

section \<open>Lanes and slots\<close>

lemma partner_idx0:
  assumes "0 < h"
  shows "partner r h (idx0_nat (2 * h) t) = idx1_nat r (2 * h) (idx0_nat (2 * h) t)"
  using assms by (simp add: partner_def idx1_nat_def idx0_nat_mod)

lemma idx0_low: "0 < h \<Longrightarrow> idx0_nat (2 * h) t mod (2 * h) < h"
  by (simp add: idx0_nat_mod)

lemma idx1_coords:
  assumes "0 < h"
  shows "idx1_nat r (2 * h) (idx0_nat (2 * h) t) div (2 * h) = t div h"
    and "idx1_nat r (2 * h) (idx0_nat (2 * h) t) mod (2 * h) = (if r then 2 * h - 1 - t mod h else t mod h + h)"
proof -
  have m: "t mod h < h" using assms by simp
  then have 1: "2 * h - 1 - t mod h < 2 * h" "t mod h + h < 2 * h" using assms by simp_all
  show "idx1_nat r (2 * h) (idx0_nat (2 * h) t) div (2 * h) = t div h"
    using assms block_div [OF 1(1), of "t div h"] block_div [OF 1(2), of "t div h"]
    by (cases r) (simp_all only: idx1_nat_rev_2h idx1_nat_fwd_2h)
  show "idx1_nat r (2 * h) (idx0_nat (2 * h) t) mod (2 * h) = (if r then 2 * h - 1 - t mod h else t mod h + h)"
    using assms block_mod [OF 1(1), of "t div h"] block_mod [OF 1(2), of "t div h"]
    by (cases r) (simp_all only: idx1_nat_rev_2h idx1_nat_fwd_2h if_True if_False)
qed

lemma idx1_high:
  assumes "0 < h"
  shows "\<not> idx1_nat r (2 * h) (idx0_nat (2 * h) t) mod (2 * h) < h"
proof -
  have m: "t mod h < h" using assms by simp
  then have "h \<le> 2 * h - 1 - t mod h" "h \<le> t mod h + h" by linarith+
  then show ?thesis by (simp only: idx1_coords(2) [OF assms] split: if_split) simp
qed

lemma partner_idx1_rev:
  assumes "0 < h"
  shows "partner True h (idx1_nat True (2 * h) (idx0_nat (2 * h) t)) = idx0_nat (2 * h) t"
proof -
  let ?i1 = "idx1_nat True (2 * h) (idx0_nat (2 * h) t)"
  have m: "t mod h < h" using assms by simp
  have d1: "?i1 div (2 * h) = t div h" by (rule idx1_coords(1) [OF assms])
  have m1: "?i1 mod (2 * h) = 2 * h - 1 - t mod h"
    using idx1_coords(2) [OF assms, of True t] by simp
  have "2 * h - 1 - (2 * h - 1 - t mod h) = t mod h" using m by linarith
  then have "partner True h ?i1 = (t div h) * (2 * h) + t mod h"
    unfolding partner_def by (simp only: d1 m1 if_True)
  then show ?thesis by (simp only: idx0_nat_2h)
qed

lemma partner_idx1_fwd:
  assumes "0 < h"
  shows "partner False h (idx1_nat False (2 * h) (idx0_nat (2 * h) t)) = idx0_nat (2 * h) t"
proof -
  let ?i1 = "idx1_nat False (2 * h) (idx0_nat (2 * h) t)"
  have hi: "\<not> ?i1 mod (2 * h) < h" by (rule idx1_high [OF assms])
  have "?i1 = (t div h) * (2 * h) + (t mod h + h)" by (simp only: idx1_nat_fwd_2h)
  then have "?i1 - h = (t div h) * (2 * h) + t mod h" by simp
  then have "partner False h ?i1 = (t div h) * (2 * h) + t mod h"
    unfolding partner_def using hi by (simp only: if_False)
  then show ?thesis by (simp only: idx0_nat_2h)
qed

lemma partner_idx1:
  assumes "0 < h"
  shows "partner r h (idx1_nat r (2 * h) (idx0_nat (2 * h) t)) = idx0_nat (2 * h) t"
  using partner_idx1_rev [OF assms] partner_idx1_fwd [OF assms] by (cases r) simp_all

lemma lane_of_idx0: "0 < h \<Longrightarrow> lane_of r h (idx0_nat (2 * h) t) = t"
  by (simp add: lane_of_def idx0_nat_div idx0_nat_mod)

lemma lane_of_idx1_rev:
  assumes "0 < h"
  shows "lane_of True h (idx1_nat True (2 * h) (idx0_nat (2 * h) t)) = t"
proof -
  let ?i1 = "idx1_nat True (2 * h) (idx0_nat (2 * h) t)"
  have m: "t mod h < h" using assms by simp
  have d1: "?i1 div (2 * h) = t div h" by (rule idx1_coords(1) [OF assms])
  have m1: "?i1 mod (2 * h) = 2 * h - 1 - t mod h"
    using idx1_coords(2) [OF assms, of True t] by simp
  have hi: "\<not> ?i1 mod (2 * h) < h" by (rule idx1_high [OF assms])
  have e: "2 * h - 1 - (2 * h - 1 - t mod h) = t mod h" using m by linarith
  have "lane_of True h ?i1 = (t div h) * h + (2 * h - 1 - ?i1 mod (2 * h))"
    unfolding lane_of_def using hi by (simp only: d1 if_False if_True)
  also have "\<dots> = (t div h) * h + t mod h" by (simp only: m1 e)
  finally show ?thesis by simp
qed

lemma lane_of_idx1_fwd:
  assumes "0 < h"
  shows "lane_of False h (idx1_nat False (2 * h) (idx0_nat (2 * h) t)) = t"
proof -
  let ?i1 = "idx1_nat False (2 * h) (idx0_nat (2 * h) t)"
  have d1: "?i1 div (2 * h) = t div h" by (rule idx1_coords(1) [OF assms])
  have m1: "?i1 mod (2 * h) = t mod h + h"
    using idx1_coords(2) [OF assms, of False t] by simp
  have hi: "\<not> ?i1 mod (2 * h) < h" by (rule idx1_high [OF assms])
  have "lane_of False h ?i1 = (t div h) * h + (?i1 mod (2 * h) - h)"
    unfolding lane_of_def using hi by (simp only: d1 if_False)
  also have "\<dots> = (t div h) * h + t mod h" by (simp add: m1)
  finally show ?thesis by simp
qed

lemma lane_of_idx1:
  assumes "0 < h"
  shows "lane_of r h (idx1_nat r (2 * h) (idx0_nat (2 * h) t)) = t"
  using lane_of_idx1_rev [OF assms] lane_of_idx1_fwd [OF assms] by (cases r) simp_all

lemma idx_of_lane:
  fixes h i :: nat
  assumes "0 < h"
  shows "i = (if i mod (2 * h) < h then idx0_nat (2 * h) (lane_of r h i)
              else idx1_nat r (2 * h) (idx0_nat (2 * h) (lane_of r h i)))"
proof (rule half_coords [OF assms, of i])
  fix c s assume i: "i = c * (2 * h) + s" "s < h" "i div h = 2 * c" "i div (2 * h) = c"
  have "s < 2 * h" using i(2) by simp
  then have m: "i mod (2 * h) = s" unfolding i(1) by (rule block_mod)
  have l: "lane_of r h i = c * h + s" unfolding lane_of_def using i(2) by (simp only: m i(4) if_True)
  have "idx0_nat (2 * h) (c * h + s) = c * (2 * h) + s"
    using i(2) by (simp add: idx0_nat_2h)
  then show ?thesis by (simp only: m l i(2) if_True) (rule i(1))
next
  fix c s assume i: "i = c * (2 * h) + h + s" "s < h" "i div h = 2 * c + 1" "i div (2 * h) = c"
  have "h + s < 2 * h" using i(2) by simp
  then have "(c * (2 * h) + (h + s)) mod (2 * h) = h + s" by (rule block_mod)
  then have m: "i mod (2 * h) = h + s" unfolding i(1) by (simp only: add.assoc)
  have nl: "\<not> i mod (2 * h) < h" unfolding m by simp
  define rho where "rho = (if r then h - 1 - s else s)"
  have rho: "rho < h" using i(2) by (simp add: rho_def)
  have "(if r then 2 * h - 1 - (h + s) else (h + s) - h) = rho"
    using i(2) by (simp add: rho_def)
  then have l: "lane_of r h i = c * h + rho"
    unfolding lane_of_def using nl by (simp only: m i(4) if_False)
  have d: "(c * h + rho) div h = c" "(c * h + rho) mod h = rho"
    using rho by simp_all
  have "idx1_nat r (2 * h) (idx0_nat (2 * h) (c * h + rho)) = c * (2 * h) + h + s"
  proof (cases r)
    case True
    have "2 * h - 1 - rho = h + s" using i(2) True by (simp add: rho_def)
    then show ?thesis using True assms by (simp add: idx1_nat_rev_2h d)
  next
    case False
    then have "rho = s" by (simp add: rho_def)
    moreover have "idx1_nat False (2 * h) (idx0_nat (2 * h) (c * h + rho)) = c * (2 * h) + (rho + h)"
      by (simp only: idx1_nat_fwd_2h d)
    ultimately show ?thesis using False by simp
  qed
  then show ?thesis using nl by (simp only: l if_False) (rule i(1))
qed

lemma lane_of_eq:
  assumes "0 < h" "lane_of r h i = t"
  shows "i = idx0_nat (2 * h) t \<or> i = idx1_nat r (2 * h) (idx0_nat (2 * h) t)"
  using idx_of_lane [OF assms(1), of i r] assms(2) by (metis)

section \<open>What a pass leaves in each slot\<close>

lemma lane_nat_length: "length (lane_nat gt r u n xs t) = length xs"
  by (simp add: lane_nat_def Let_def)

lemma foldl_lane_nat_length: "length (foldl (lane_nat gt r u n) xs ts) = length xs"
  by (induction ts arbitrary: xs) (simp_all add: lane_nat_length)

lemma pass_spec_idx0:
  assumes "0 < h"
  shows "pass_spec gt r h n xs (idx0_nat (2 * h) t) =
         (if idx1_nat r (2 * h) (idx0_nat (2 * h) t) < n
             \<and> gt (xs ! idx0_nat (2 * h) t) (xs ! idx1_nat r (2 * h) (idx0_nat (2 * h) t))
          then xs ! idx1_nat r (2 * h) (idx0_nat (2 * h) t) else xs ! idx0_nat (2 * h) t)"
  unfolding pass_spec_def Let_def
  by (simp only: partner_idx0 [OF assms] idx0_low [OF assms] if_True)

lemma pass_spec_idx1:
  assumes "0 < h"
  shows "pass_spec gt r h n xs (idx1_nat r (2 * h) (idx0_nat (2 * h) t)) =
         (if idx1_nat r (2 * h) (idx0_nat (2 * h) t) < n
             \<and> gt (xs ! idx0_nat (2 * h) t) (xs ! idx1_nat r (2 * h) (idx0_nat (2 * h) t))
          then xs ! idx0_nat (2 * h) t else xs ! idx1_nat r (2 * h) (idx0_nat (2 * h) t))"
  unfolding pass_spec_def Let_def
  using idx1_high [OF assms, of r t]
  by (simp only: partner_idx1 [OF assms] if_False)

text \<open>
  The lanes of a pass own disjoint pairs of slots: whatever the order in which a set of
  lanes has run, a slot holds what the pass leaves there when its lane is among them, and
  what it held before otherwise.
\<close>

lemma lanes_nth:
  assumes h: "0 < h" and len: "n \<le> length xs"
  shows "distinct ts \<Longrightarrow>
         length (foldl (lane_nat gt r (2 * h) n) xs ts) = length xs
         \<and> (\<forall>i<length xs. foldl (lane_nat gt r (2 * h) n) xs ts ! i =
               (if lane_of r h i \<in> set ts then pass_spec gt r h n xs i else xs ! i))"
proof (induction ts rule: rev_induct)
  case Nil
  then show ?case by simp
next
  case (snoc g ts)
  let ?ys = "foldl (lane_nat gt r (2 * h) n) xs ts"
  let ?i0 = "idx0_nat (2 * h) g"
  let ?i1 = "idx1_nat r (2 * h) ?i0"
  have dist: "distinct ts" and fresh: "g \<notin> set ts" using snoc.prems by simp_all
  have ly: "length ?ys = length xs" using snoc.IH [OF dist] by simp
  have ih: "?ys ! i = (if lane_of r h i \<in> set ts then pass_spec gt r h n xs i else xs ! i)"
    if "i < length xs" for i using snoc.IH [OF dist] that by simp
  have step: "foldl (lane_nat gt r (2 * h) n) xs (ts @ [g]) = lane_nat gt r (2 * h) n ?ys g"
    by simp
  have lt: "?i0 < ?i1" by (rule idx0_less_idx1_nat [OF h])
  have l0: "lane_of r h ?i0 = g" by (rule lane_of_idx0 [OF h])
  have l1: "lane_of r h ?i1 = g" by (rule lane_of_idx1 [OF h])
  have other: "i = ?i0 \<or> i = ?i1" if "lane_of r h i = g" for i
    using lane_of_eq [OF h that] .
  show ?case
  proof (cases "n \<le> ?i1")
    case True
    have new: "lane_nat gt r (2 * h) n ?ys g = ?ys" using True by (simp add: lane_nat_def Let_def)
    have "?ys ! i = (if lane_of r h i \<in> set (ts @ [g]) then pass_spec gt r h n xs i else xs ! i)"
      if i: "i < length xs" for i
    proof (cases "lane_of r h i = g")
      case eq: True
      have "pass_spec gt r h n xs ?i0 = xs ! ?i0" "pass_spec gt r h n xs ?i1 = xs ! ?i1"
        using True by (simp_all only: pass_spec_idx0 [OF h] pass_spec_idx1 [OF h]) simp_all
      then have "pass_spec gt r h n xs i = xs ! i"
        using other [OF eq] by blast
      then show ?thesis using ih [OF i] eq fresh by simp
    next
      case False
      then show ?thesis using ih [OF i] by simp
    qed
    then show ?thesis unfolding step new using ly by simp
  next
    case False
    then have b1: "?i1 < length xs" and b0: "?i0 < length xs" using len lt by simp_all
    have y0: "?ys ! ?i0 = xs ! ?i0" using ih [OF b0] l0 fresh by simp
    have y1: "?ys ! ?i1 = xs ! ?i1" using ih [OF b1] l1 fresh by simp
    let ?sw = "gt (xs ! ?i0) (xs ! ?i1)"
    have new: "lane_nat gt r (2 * h) n ?ys g = (if ?sw then ?ys[?i0 := xs ! ?i1, ?i1 := xs ! ?i0] else ?ys)"
      using False by (simp add: lane_nat_def Let_def y0 y1)
    have "lane_nat gt r (2 * h) n ?ys g ! i =
            (if lane_of r h i \<in> set (ts @ [g]) then pass_spec gt r h n xs i else xs ! i)"
      if i: "i < length xs" for i
    proof (cases "lane_of r h i = g")
      case eq: True
      from other [OF eq] show ?thesis
      proof
        assume "i = ?i0"
        then show ?thesis
          using False lt b0 b1 ly y0 l0
          by (simp add: new pass_spec_idx0 [OF h])
      next
        assume "i = ?i1"
        then show ?thesis
          using False lt b0 b1 ly y1 l1
          by (simp add: new pass_spec_idx1 [OF h])
      qed
    next
      case False
      then have "i \<noteq> ?i0" "i \<noteq> ?i1" using l0 l1 by auto
      then have "lane_nat gt r (2 * h) n ?ys g ! i = ?ys ! i" by (simp add: new)
      then show ?thesis using ih [OF i] False by simp
    qed
    then show ?thesis unfolding step using ly by (simp add: lane_nat_length)
  qed
qed

lemma pass_prefix_nth:
  assumes h: "0 < h" and len: "n \<le> length xs"
  shows "length (foldl (lane_nat gt r (2 * h) n) xs [0..<g]) = length xs
         \<and> (\<forall>i<length xs. foldl (lane_nat gt r (2 * h) n) xs [0..<g] ! i =
               (if lane_of r h i < g then pass_spec gt r h n xs i else xs ! i))"
  using lanes_nth [OF h len, of "[0..<g]" gt r] by simp

lemma lanes_any_order_nat:
  assumes h: "0 < h" and len: "n \<le> length xs"
    and ts: "distinct ts" "set ts = {0..<G}"
  shows "foldl (lane_nat gt r (2 * h) n) xs ts = pass_nat gt r (2 * h) n G xs"
proof (rule nth_equalityI)
  show "length (foldl (lane_nat gt r (2 * h) n) xs ts) = length (pass_nat gt r (2 * h) n G xs)"
    by (simp add: pass_nat_def foldl_lane_nat_length)
  fix i assume "i < length (foldl (lane_nat gt r (2 * h) n) xs ts)"
  then have i: "i < length xs" by (simp add: foldl_lane_nat_length)
  show "foldl (lane_nat gt r (2 * h) n) xs ts ! i = pass_nat gt r (2 * h) n G xs ! i"
    using lanes_nth [OF h len ts(1), of gt r] lanes_nth [OF h len, of "[0..<G]" gt r] i ts(2)
    by (simp add: pass_nat_def)
qed

lemma lane_of_less:
  fixes h i :: nat
  assumes "0 < h"
  shows "lane_of r h i < (i div (2 * h) + 1) * h"
proof -
  define m where "m = i mod (2 * h)"
  have "m < 2 * h" unfolding m_def using assms by simp
  then have "(if m < h then m else if r then 2 * h - 1 - m else m - h) < h"
    using assms by (cases "m < h"; cases r) simp_all
  then show ?thesis unfolding lane_of_def m_def by simp
qed

lemma lane_of_bound:
  fixes h i N G :: nat
  assumes h: "0 < h" and dv: "(2 * h) dvd N" and i: "i < N" and G: "N \<le> 2 * G"
  shows "lane_of r h i < G"
proof -
  from dv obtain m where m: "N = (2 * h) * m" by (rule dvdE)
  have "i div (2 * h) < m" using i h unfolding m by (simp add: less_mult_imp_div_less mult.commute)
  then have "(i div (2 * h) + 1) * h \<le> m * h" by (intro mult_le_mono1) simp
  also have "2 * (m * h) = N" unfolding m by simp
  finally show ?thesis using lane_of_less [OF h, of r i] G by linarith
qed

lemma pass_nat_nth:
  assumes h: "0 < h" and dv: "(2 * h) dvd length xs" and n: "n \<le> length xs"
    and G: "length xs \<le> 2 * G"
  shows "length (pass_nat gt r (2 * h) n G xs) = length xs"
    and "i < length xs \<Longrightarrow> pass_nat gt r (2 * h) n G xs ! i = pass_spec gt r h n xs i"
  using pass_prefix_nth [OF h n, of gt r G] lane_of_bound [OF h dv _ G, of _ r]
  by (simp_all add: pass_nat_def)

section \<open>The threshold image of a pass\<close>

lemma tpo_trans:
  assumes "total_preorder_on gt S" "a \<in> S" "b \<in> S" "c \<in> S" "gt a b" "gt b c"
  shows "gt a c"
  using assms unfolding total_preorder_on_def by blast

lemma tpo_le_trans:
  assumes "total_preorder_on gt S" "a \<in> S" "b \<in> S" "c \<in> S" "\<not> gt a b" "\<not> gt b c"
  shows "\<not> gt a c"
  using assms unfolding total_preorder_on_def by blast

lemma tpo_irrefl:
  assumes "total_preorder_on gt S" "a \<in> S"
  shows "\<not> gt a a"
  using assms unfolding total_preorder_on_def by blast

lemma partner_gt_low:
  fixes h i :: nat
  assumes "0 < h" "i mod (2 * h) < h"
  shows "i < partner r h i"
proof -
  have "i = idx0_nat (2 * h) (lane_of r h i)" using idx_of_lane [OF assms(1), of i r] assms(2) by simp
  then show ?thesis
    using idx0_less_idx1_nat [OF assms(1), of "lane_of r h i" r] partner_idx0 [OF assms(1), of r "lane_of r h i"]
    by simp
qed

lemma partner_lt_high:
  fixes h i :: nat
  assumes "0 < h" "\<not> i mod (2 * h) < h"
  shows "partner r h i < i"
proof -
  have "i = idx1_nat r (2 * h) (idx0_nat (2 * h) (lane_of r h i))"
    using idx_of_lane [OF assms(1), of i r] assms(2) by simp
  then show ?thesis
    using idx0_less_idx1_nat [OF assms(1), of "lane_of r h i" r] partner_idx1 [OF assms(1), of r "lane_of r h i"]
    by simp
qed

lemma cmpex_low:
  assumes "total_preorder_on gt S" "a \<in> S" "b \<in> S" "v \<in> S"
  shows "gt (if gt a b then b else a) v = (gt a v \<and> gt b v)"
  using tpo_trans [OF assms(1,2,3,4)] tpo_le_trans [OF assms(1,2,3,4)] by auto

lemma cmpex_high:
  assumes "total_preorder_on gt S" "a \<in> S" "b \<in> S" "v \<in> S"
  shows "gt (if gt a b then a else b) v = (gt b v \<or> gt a v)"
  using tpo_trans [OF assms(1,2,3,4)] tpo_le_trans [OF assms(1,2,3,4)] by auto

lemma above_pass:
  assumes h: "0 < h" and dv: "(2 * h) dvd length xs" and n: "n \<le> length xs"
    and G: "length xs \<le> 2 * G"
    and tpo: "total_preorder_on gt S" and S: "set (take n xs) \<subseteq> S" and v: "v \<in> S"
  shows "above gt v n (pass_nat gt r (2 * h) n G xs) = bpass r h (above gt v n xs)"
proof
  fix i
  let ?ys = "pass_nat gt r (2 * h) n G xs"
  let ?p = "partner r h i"
  have inS: "xs ! j \<in> S" if "j < n" for j
  proof -
    have "take n xs ! j \<in> set (take n xs)" using that n by (intro nth_mem) simp
    then show ?thesis using S that by auto
  qed
  show "above gt v n ?ys i = bpass r h (above gt v n xs) i"
  proof (cases "n \<le> i")
    case True
    then have "i mod (2 * h) < h \<Longrightarrow> n \<le> ?p" using partner_gt_low [OF h, of i r] by simp
    then show ?thesis using True by (auto simp: above_def bpass_def)
  next
    case False
    then have i: "i < n" "i < length xs" using n by simp_all
    have nth: "?ys ! i = pass_spec gt r h n xs i" using pass_nat_nth(2) [OF h dv n G i(2)] .
    show ?thesis
    proof (cases "i mod (2 * h) < h")
      case low: True
      show ?thesis
      proof (cases "?p < n")
        case True
        show ?thesis
          using low True i cmpex_low [OF tpo inS [OF i(1)] inS [OF True] v]
          by (simp add: above_def bpass_def nth pass_spec_def Let_def)
      next
        case False
        then show ?thesis using low i by (simp add: above_def bpass_def nth pass_spec_def Let_def)
      qed
    next
      case high: False
      have pn: "?p < n" using partner_lt_high [OF h high, of r] i by simp
      show ?thesis
        using high pn i cmpex_high [OF tpo inS [OF pn] inS [OF i(1)] v]
        by (simp add: above_def bpass_def nth pass_spec_def Let_def)
    qed
  qed
qed

lemma lane_nat_take_mset:
  assumes h: "0 < h" and n: "n \<le> length xs"
  shows "mset (take n (lane_nat gt r (2 * h) n xs t)) = mset (take n xs)"
proof -
  let ?i0 = "idx0_nat (2 * h) t"
  let ?i1 = "idx1_nat r (2 * h) ?i0"
  have lt: "?i0 < ?i1" by (rule idx0_less_idx1_nat [OF h])
  show ?thesis
  proof (cases "n \<le> ?i1")
    case True
    then show ?thesis by (simp add: lane_nat_def Let_def)
  next
    case False
    then have b: "?i1 < n" "?i0 < n" using lt by simp_all
    then have "take n (xs[?i0 := xs ! ?i1, ?i1 := xs ! ?i0])
             = (take n xs)[?i0 := take n xs ! ?i1, ?i1 := take n xs ! ?i0]"
      by (simp add: take_update_swap)
    moreover have "mset ((take n xs)[?i0 := take n xs ! ?i1, ?i1 := take n xs ! ?i0]) = mset (take n xs)"
      using b n by (intro mset_swap) simp_all
    ultimately show ?thesis using False by (simp add: lane_nat_def Let_def)
  qed
qed

lemma pass_nat_take_mset:
  assumes h: "0 < h" and n: "n \<le> length xs"
  shows "mset (take n (pass_nat gt r (2 * h) n G xs)) = mset (take n xs)"
proof -
  have "length (foldl (lane_nat gt r (2 * h) n) xs ts) = length xs
        \<and> mset (take n (foldl (lane_nat gt r (2 * h) n) xs ts)) = mset (take n xs)" for ts
  proof (induction ts rule: rev_induct)
    case Nil
    then show ?case by simp
  next
    case (snoc t ts)
    then show ?case using lane_nat_take_mset [OF h, of n _ gt r t] n
      by (simp add: lane_nat_length)
  qed
  then show ?thesis by (simp add: pass_nat_def)
qed

section \<open>The network sorts\<close>

lemma pass_nat_length: "length (pass_nat gt r u n G xs) = length xs"
  by (simp add: pass_nat_def foldl_lane_nat_length)

lemma nfwd_length: "length (nfwd gt n G j xs) = length xs"
  by (induction j arbitrary: xs) (simp_all add: pass_nat_length)

lemma nsort_length: "length (nsort gt n G K xs) = length xs"
  by (induction K) (simp_all add: nstage_def nfwd_length pass_nat_length)

lemma pass_ok:
  assumes len: "length xs = 2 ^ K" and n: "n \<le> 2 ^ K" and G: "2 ^ K \<le> 2 * G"
    and tpo: "total_preorder_on gt S" and S: "set (take n xs) \<subseteq> S" and v: "v \<in> S"
    and j: "j < K" and ok: "net_ok gt v n xs ys b"
  shows "net_ok gt v n xs (pass_nat gt r (2 * 2 ^ j) n G ys) (bpass r (2 ^ j) b)"
proof -
  have ly: "length ys = 2 ^ K" and my: "mset (take n ys) = mset (take n xs)"
    and ay: "above gt v n ys = b"
    using ok len unfolding net_ok_def by simp_all
  have h: "(0::nat) < 2 ^ j" by simp
  have "(2::nat) ^ Suc j dvd 2 ^ K" using j by (intro le_imp_power_dvd) simp
  then have dv: "(2 * 2 ^ j) dvd length ys" using ly by simp
  have ny: "n \<le> length ys" using n ly by simp
  have Gy: "length ys \<le> 2 * G" using G ly by simp
  have Sy: "set (take n ys) \<subseteq> S" using S my by (metis set_mset_mset)
  have 1: "length (pass_nat gt r (2 * 2 ^ j) n G ys) = length xs"
    using pass_nat_nth(1) [OF h dv ny Gy] ly len by simp
  have 2: "mset (take n (pass_nat gt r (2 * 2 ^ j) n G ys)) = mset (take n xs)"
    using pass_nat_take_mset [OF h ny] my by simp
  have 3: "above gt v n (pass_nat gt r (2 * 2 ^ j) n G ys) = bpass r (2 ^ j) b"
    using above_pass [OF h dv ny Gy tpo Sy v] ay by simp
  from 1 2 3 show ?thesis unfolding net_ok_def by simp
qed

lemma nfwd_ok:
  assumes len: "length xs = 2 ^ K" and n: "n \<le> 2 ^ K" and G: "2 ^ K \<le> 2 * G"
    and tpo: "total_preorder_on gt S" and S: "set (take n xs) \<subseteq> S" and v: "v \<in> S"
  shows "j \<le> K \<Longrightarrow> net_ok gt v n xs ys b \<Longrightarrow> net_ok gt v n xs (nfwd gt n G j ys) (bfwd j b)"
proof (induction j arbitrary: ys b)
  case 0
  then show ?case by simp
next
  case (Suc j)
  have "net_ok gt v n xs (pass_nat gt False (2 * 2 ^ j) n G ys) (bpass False (2 ^ j) b)"
    using Suc.prems by (intro pass_ok [OF len n G tpo S v]) simp_all
  then show ?case using Suc.IH Suc.prems(1) by simp
qed

lemma nstage_ok:
  assumes len: "length xs = 2 ^ K" and n: "n \<le> 2 ^ K" and G: "2 ^ K \<le> 2 * G"
    and tpo: "total_preorder_on gt S" and S: "set (take n xs) \<subseteq> S" and v: "v \<in> S"
    and j: "j < K" and ok: "net_ok gt v n xs ys b"
  shows "net_ok gt v n xs (nstage gt n G j ys) (bstage j b)"
  unfolding nstage_def bstage_def
  using j by (intro nfwd_ok [OF len n G tpo S v] pass_ok [OF len n G tpo S v] ok) simp_all

lemma nsort_ok:
  assumes len: "length xs = 2 ^ K" and n: "n \<le> 2 ^ K" and G: "2 ^ K \<le> 2 * G"
    and tpo: "total_preorder_on gt S" and S: "set (take n xs) \<subseteq> S" and v: "v \<in> S"
  shows "J \<le> K \<Longrightarrow> net_ok gt v n xs (nsort gt n G J xs) (bsort J (above gt v n xs))"
proof (induction J)
  case 0
  then show ?case by (simp add: net_ok_def)
next
  case (Suc J)
  then show ?case using nstage_ok [OF len n G tpo S v, of J] by simp
qed

lemma nsort_sorted:
  assumes len: "length xs = 2 ^ K" and n: "n \<le> 2 ^ K" and G: "2 ^ K \<le> 2 * G"
    and tpo: "total_preorder_on gt (set (take n xs))"
  shows "length (nsort gt n G K xs) = length xs"
    and "mset (take n (nsort gt n G K xs)) = mset (take n xs)"
    and "sorted_wrt (\<lambda>p q. \<not> gt p q) (take n (nsort gt n G K xs))"
proof -
  let ?ys = "nsort gt n G K xs" and ?S = "set (take n xs)"
  have ok: "net_ok gt v n xs ?ys (bsort K (above gt v n xs))" if "v \<in> ?S" for v
    using nsort_ok [OF len n G tpo subset_refl that, of K] by simp
  show 1: "length ?ys = length xs" by (rule nsort_length)
  show 2: "mset (take n ?ys) = mset (take n xs)"
  proof (cases "n = 0")
    case True
    then show ?thesis by simp
  next
    case False
    then obtain v where "v \<in> ?S" using n len by (cases "take n xs") auto
    from ok [OF this] show ?thesis unfolding net_ok_def by simp
  qed
  have ny: "n \<le> length ?ys" using 1 n len by simp
  show "sorted_wrt (\<lambda>p q. \<not> gt p q) (take n ?ys)"
    unfolding sorted_wrt_iff_nth_less
  proof (intro allI impI)
    fix i j assume ij: "i < j" "j < length (take n ?ys)"
    then have jn: "j < n" and i_n: "i < n" by simp_all
    let ?v = "?ys ! j"
    have "take n ?ys ! j \<in> set (take n ?ys)" using ij by (intro nth_mem)
    then have vS: "?v \<in> ?S" using 2 jn by (metis nth_take set_mset_mset)
    have ab: "above gt ?v n ?ys = bsort K (above gt ?v n xs)"
      using ok [OF vS] unfolding net_ok_def by simp
    have srt: "blocks_sorted (2 ^ K) (above gt ?v n ?ys)"
      unfolding ab by (rule bsort_sorted)
    have "i div 2 ^ K = j div 2 ^ K" using i_n jn n by simp
    then have "above gt ?v n ?ys i \<longrightarrow> above gt ?v n ?ys j"
      using srt ij(1) unfolding blocks_sorted_def by (meson less_imp_le_nat)
    moreover have "\<not> above gt ?v n ?ys j"
      using jn tpo_irrefl [OF tpo vS] by (simp add: above_def)
    ultimately have "\<not> gt (?ys ! i) (?ys ! j)" using i_n by (simp add: above_def)
    then show "\<not> gt (take n ?ys ! i) (take n ?ys ! j)" using i_n jn by simp
  qed
qed

section \<open>The kernel passes compute the network\<close>

lemma length_fwd_schedule: "length (fwd_schedule j) = j"
  by (induction j) simp_all

lemma length_bitonic_schedule: "length (bitonic_schedule K) = K * (K + 1) div 2"
  by (induction K) (simp_all add: stage_schedule_def length_fwd_schedule)

lemma gpusort_single_lanes_nat:
  assumes k: "1 \<le> k" "k \<le> 30"
    and b: "b = word_of_nat k \<or> b = - word_of_nat k"
  shows "\<forall>t\<in>set ts. t < 2 ^ 30 \<Longrightarrow> unat (nrows kg) \<le> length (result_index kg)
         \<Longrightarrow> length (result_index kg) < 2 ^ 31
         \<Longrightarrow> gpusort_single_lanes cmp b ts kg =
             Some (kg\<lparr>result_index := foldl (lane_nat (gt_of cmp (coldata kg) (ktoast kg)) (b <s 0) (2 ^ k)
                      (unat (nrows kg))) (result_index kg) ts\<rparr>)"
proof (induction ts arbitrary: kg)
  case Nil
  then show ?case by simp
next
  case (Cons t ts)
  let ?f = "lane_nat (gt_of cmp (coldata kg) (ktoast kg)) (b <s 0) (2 ^ k) (unat (nrows kg))"
  let ?kg1 = "kg\<lparr>result_index := ?f (result_index kg) t\<rparr>"
  have t: "t < 2 ^ 30" using Cons.prems(1) by simp
  have 1: "gpusort_single cmp b kg (word_of_nat t) = Some ?kg1"
    using gpusort_single_nat [OF k t b Cons.prems(2,3)] .
  have 2: "gpusort_single_lanes cmp b ts ?kg1 =
           Some (?kg1\<lparr>result_index := foldl ?f (result_index ?kg1) ts\<rparr>)"
    using Cons.IH [of ?kg1] Cons.prems by (simp add: lane_nat_length)
  show ?case using 1 2 by simp
qed

lemma gpusort_single_pass_nat:
  assumes k: "1 \<le> k" "k \<le> 30"
    and b: "b = word_of_nat k \<or> b = - word_of_nat k"
    and G: "G \<le> 2 ^ 30"
    and n: "unat (nrows kg) \<le> length (result_index kg)" "length (result_index kg) < 2 ^ 31"
  shows "gpusort_single_pass cmp b G kg =
           Some (kg\<lparr>result_index := pass_nat (gt_of cmp (coldata kg) (ktoast kg)) (b <s 0) (2 ^ k)
                    (unat (nrows kg)) G (result_index kg)\<rparr>)"
proof -
  have "\<forall>t\<in>set [0..<G]. t < 2 ^ 30" using G by auto
  from gpusort_single_lanes_nat [OF k b this n] show ?thesis
    by (simp add: gpusort_single_pass_def pass_nat_def)
qed

text \<open>
  A launch does not order its lanes. Run one after the other in any order, the lanes
  \<open>0, \<dots>, G - 1\<close> leave the chunk that the pass, which runs them by ascending thread id,
  leaves.
\<close>

lemma gpusort_single_lanes_any_order:
  assumes k: "1 \<le> k" "k \<le> 30"
    and b: "b = word_of_nat k \<or> b = - word_of_nat k"
    and G: "G \<le> 2 ^ 30"
    and n: "unat (nrows kg) \<le> length (result_index kg)" "length (result_index kg) < 2 ^ 31"
    and ts: "distinct ts" "set ts = {0..<G}"
  shows "gpusort_single_lanes cmp b ts kg = gpusort_single_pass cmp b G kg"
proof -
  obtain j where j: "k = Suc j" using k(1) by (cases k) auto
  have u: "(2::nat) ^ k = 2 * 2 ^ j" by (simp add: j)
  have "\<forall>t\<in>set ts. t < 2 ^ 30" using G ts(2) by auto
  from gpusort_single_lanes_nat [OF k b this n, of cmp]
    gpusort_single_pass_nat [OF k b G n, of cmp]
    lanes_any_order_nat [of "2 ^ j" "unat (nrows kg)" "result_index kg" ts G, OF _ n(1) ts]
  show ?thesis by (simp add: u)
qed

lemma gpusort_single_passes_append:
  "gpusort_single_passes cmp G (as @ bs) kg =
     (case gpusort_single_passes cmp G as kg of
        None \<Rightarrow> None
      | Some kg' \<Rightarrow> gpusort_single_passes cmp G bs kg')"
  by (induction as arbitrary: kg) (simp_all split: option.splits)

lemma pass_fwd_nat:
  assumes "j < 30" "G \<le> 2 ^ 30"
    and "unat (nrows kg) \<le> length (result_index kg)" "length (result_index kg) < 2 ^ 31"
  shows "gpusort_single_pass cmp (word_of_nat (Suc j)) G kg =
           Some (kg\<lparr>result_index := pass_nat (gt_of cmp (coldata kg) (ktoast kg)) False (2 * 2 ^ j)
                    (unat (nrows kg)) G (result_index kg)\<rparr>)"
proof -
  have k: "1 \<le> Suc j" "Suc j \<le> 30" using assms(1) by simp_all
  have r: "\<not> ((word_of_nat (Suc j) :: cl_int) <s 0)" using decode_fwd(1) [OF k(2)] .
  show ?thesis
    using gpusort_single_pass_nat [OF k _ assms(2-4), of "word_of_nat (Suc j)" cmp] r by simp
qed

lemma pass_rev_nat:
  assumes "j < 30" "G \<le> 2 ^ 30"
    and "unat (nrows kg) \<le> length (result_index kg)" "length (result_index kg) < 2 ^ 31"
  shows "gpusort_single_pass cmp (- word_of_nat (Suc j)) G kg =
           Some (kg\<lparr>result_index := pass_nat (gt_of cmp (coldata kg) (ktoast kg)) True (2 * 2 ^ j)
                    (unat (nrows kg)) G (result_index kg)\<rparr>)"
proof -
  have k: "1 \<le> Suc j" "Suc j \<le> 30" using assms(1) by simp_all
  have r: "(- word_of_nat (Suc j) :: cl_int) <s 0" using decode_rev(1) [OF k] .
  show ?thesis
    using gpusort_single_pass_nat [OF k _ assms(2-4), of "- word_of_nat (Suc j)" cmp] r by simp
qed

lemma passes_fwd_nat:
  assumes G: "G \<le> 2 ^ 30"
  shows "j \<le> 30 \<Longrightarrow> unat (nrows kg) \<le> length (result_index kg) \<Longrightarrow> length (result_index kg) < 2 ^ 31
         \<Longrightarrow> gpusort_single_passes cmp G (fwd_schedule j) kg =
             Some (kg\<lparr>result_index := nfwd (gt_of cmp (coldata kg) (ktoast kg)) (unat (nrows kg)) G j
                      (result_index kg)\<rparr>)"
proof (induction j arbitrary: kg)
  case 0
  then show ?case by simp
next
  case (Suc j)
  let ?gt = "gt_of cmp (coldata kg) (ktoast kg)" and ?n = "unat (nrows kg)"
  let ?kg1 = "kg\<lparr>result_index := pass_nat ?gt False (2 * 2 ^ j) ?n G (result_index kg)\<rparr>"
  have 1: "gpusort_single_pass cmp (word_of_nat (Suc j)) G kg = Some ?kg1"
    using Suc.prems by (intro pass_fwd_nat [OF _ G]) simp_all
  have 2: "gpusort_single_passes cmp G (fwd_schedule j) ?kg1 =
           Some (?kg1\<lparr>result_index := nfwd ?gt ?n G j (result_index ?kg1)\<rparr>)"
    using Suc.IH [of ?kg1] Suc.prems by (simp add: pass_nat_length)
  show ?case using 1 2 by simp
qed

lemma passes_stage_nat:
  assumes G: "G \<le> 2 ^ 30" and j: "j < 30"
    and n: "unat (nrows kg) \<le> length (result_index kg)" "length (result_index kg) < 2 ^ 31"
  shows "gpusort_single_passes cmp G (stage_schedule j) kg =
             Some (kg\<lparr>result_index := nstage (gt_of cmp (coldata kg) (ktoast kg)) (unat (nrows kg)) G j
                      (result_index kg)\<rparr>)"
proof -
  let ?gt = "gt_of cmp (coldata kg) (ktoast kg)" and ?n = "unat (nrows kg)"
  let ?kg1 = "kg\<lparr>result_index := pass_nat ?gt True (2 * 2 ^ j) ?n G (result_index kg)\<rparr>"
  have 1: "gpusort_single_pass cmp (- word_of_nat (Suc j)) G kg = Some ?kg1"
    using pass_rev_nat [OF j G n] .
  have 2: "gpusort_single_passes cmp G (fwd_schedule j) ?kg1 =
           Some (?kg1\<lparr>result_index := nfwd ?gt ?n G j (result_index ?kg1)\<rparr>)"
    using passes_fwd_nat [OF G, of j ?kg1 cmp] j n by (simp add: pass_nat_length)
  show ?thesis using 1 2 by (simp add: stage_schedule_def nstage_def)
qed

lemma passes_sort_nat:
  assumes G: "G \<le> 2 ^ 30"
    and n: "unat (nrows kg) \<le> length (result_index kg)" "length (result_index kg) < 2 ^ 31"
  shows "K \<le> 30 \<Longrightarrow> gpusort_single_passes cmp G (bitonic_schedule K) kg =
             Some (kg\<lparr>result_index := nsort (gt_of cmp (coldata kg) (ktoast kg)) (unat (nrows kg)) G K
                      (result_index kg)\<rparr>)"
proof (induction K)
  case 0
  then show ?case by simp
next
  case (Suc K)
  let ?gt = "gt_of cmp (coldata kg) (ktoast kg)" and ?n = "unat (nrows kg)"
  let ?kg1 = "kg\<lparr>result_index := nsort ?gt ?n G K (result_index kg)\<rparr>"
  have 1: "gpusort_single_passes cmp G (bitonic_schedule K) kg = Some ?kg1"
    using Suc by simp
  have 2: "gpusort_single_passes cmp G (stage_schedule K) ?kg1 =
           Some (?kg1\<lparr>result_index := nstage ?gt ?n G K (result_index ?kg1)\<rparr>)"
    using passes_stage_nat [OF G, of K ?kg1 cmp] Suc.prems n by (simp add: nsort_length)
  show ?case using 1 2 by (simp add: gpusort_single_passes_append)
qed

lemma total_preorder_on_subset:
  "total_preorder_on gt S \<Longrightarrow> T \<subseteq> S \<Longrightarrow> total_preorder_on gt T"
  unfolding total_preorder_on_def by blast

section \<open>Claim about the whole in-chunk sort\<close>

text \<open>
  Claim C1. A chunk has \<open>n\<close> rows (\<open>n = unat (nrows kg)\<close>), an index array of \<open>2 ^ K\<close> slots
  with \<open>n \<le> 2 ^ K\<close> and \<open>K \<le> 30\<close>, and the first \<open>n\<close> index entries are a permutation of
  \<open>0, \<dots>, n - 1\<close>, as the loader leaves them. For every comparator that is a total preorder
  on the rows of the chunk, the in-chunk sort returns, the first \<open>n\<close> index entries are
  again a permutation of \<open>0, \<dots>, n - 1\<close>, and the rows they refer to are in non-decreasing
  order: no entry is strictly after a later one.
\<close>

theorem bitonic_sort_sorts:
  assumes K: "K \<le> 30"
    and len: "length (result_index kg) = 2 ^ K"
    and n: "unat (nrows kg) \<le> 2 ^ K"
    and perm: "mset (take (unat (nrows kg)) (result_index kg)) = mset (map word_of_nat [0..<unat (nrows kg)])"
    and tot: "total_order_comparator cmp kg"
  shows "\<exists>kg'. bitonic_sort cmp K kg = Some kg'
           \<and> mset (take (unat (nrows kg)) (result_index kg')) = mset (map word_of_nat [0..<unat (nrows kg)])
           \<and> sorted_wrt (\<lambda>p q. \<not> gt_of cmp (coldata kg) (ktoast kg) p q)
                (take (unat (nrows kg)) (result_index kg'))"
proof -
  let ?gt = "gt_of cmp (coldata kg) (ktoast kg)" and ?n = "unat (nrows kg)"
  let ?xs = "result_index kg"
  let ?ys = "nsort ?gt ?n (2 ^ K) K ?xs"
  have p30: "(2::nat) ^ K \<le> 2 ^ 30" using K by (intro power_increasing) simp_all
  have l31: "length ?xs < 2 ^ 31" using p30 len by simp
  have nl: "?n \<le> length ?xs" using n len by simp
  have run: "bitonic_sort cmp K kg = Some (kg\<lparr>result_index := ?ys\<rparr>)"
    unfolding bitonic_sort_def using passes_sort_nat [OF p30 nl l31 K] .
  have "set (take ?n ?xs) = word_of_nat ` {0..<?n}"
    using perm by (metis set_mset_mset set_map set_upt)
  moreover have "unat (word_of_nat i :: cl_int) < ?n" if "i < ?n" for i
  proof -
    have "i < 2 ^ 32" using that n p30 by simp
    then show ?thesis using that by (simp add: unat_of_nat32)
  qed
  ultimately have sub: "set (take ?n ?xs) \<subseteq> {p. unat p < ?n}" by auto
  have tpo: "total_preorder_on ?gt (set (take ?n ?xs))"
    using tot sub unfolding total_order_comparator_def by (rule total_preorder_on_subset)
  have G: "(2::nat) ^ K \<le> 2 * 2 ^ K" by simp
  have "mset (take ?n ?ys) = mset (take ?n ?xs)"
    and "sorted_wrt (\<lambda>p q. \<not> ?gt p q) (take ?n ?ys)"
    using nsort_sorted [OF len n G tpo] by simp_all
  then show ?thesis using run perm by simp
qed

lemma gt_of_key_comp: "gt_of key_comp c ts p q = (c ! unat q <s c ! unat p)"
proof -
  have "(0::cl_int) <s 1" "\<not> (0::cl_int) <s - 1" by code_simp+
  then show ?thesis by (simp add: gt_of_def key_comp_def)
qed

lemma key_comp_total_order: "total_order_comparator key_comp kg"
  unfolding total_order_comparator_def total_preorder_on_def gt_of_key_comp
  by (auto simp: signed.not_less)

theorem bitonic_sort_sorts_witness:
  "(\<exists>kg'. bitonic_sort key_comp 3 (chunk8\<lparr>nrows := 6\<rparr>) = Some kg'
           \<and> mset (take 6 (result_index kg')) = mset (map word_of_nat [0..<6])
           \<and> sorted_wrt (\<lambda>p q. \<not> gt_of key_comp (coldata chunk8) (ktoast chunk8) p q)
                (take 6 (result_index kg')))
   \<and> bitonic_sort key_comp 3 (chunk8\<lparr>nrows := 6\<rparr>)
       = Some (chunk8\<lparr>nrows := 6, result_index := [3, 1, 4, 0, 2, 5, 6, 7]\<rparr>)"
proof -
  let ?kg = "chunk8\<lparr>nrows := 6\<rparr>"
  have n: "unat (nrows ?kg) = 6" by simp
  have 1: "(3::nat) \<le> 30" by simp
  have 2: "length (result_index ?kg) = 2 ^ 3" by (simp add: chunk8_def)
  have 3: "unat (nrows ?kg) \<le> 2 ^ 3" by simp
  have 4: "mset (take (unat (nrows ?kg)) (result_index ?kg)) = mset (map word_of_nat [0..<unat (nrows ?kg)])"
    unfolding n by code_simp
  have 5: "total_order_comparator key_comp ?kg" by (rule key_comp_total_order)
  have run: "bitonic_sort key_comp 3 ?kg = Some (chunk8\<lparr>nrows := 6, result_index := [3, 1, 4, 0, 2, 5, 6, 7]\<rparr>)"
    by code_simp
  from bitonic_sort_sorts [OF 1 2 3 4 5] run show ?thesis by (simp add: n)
qed

section \<open>Claims about loading\<close>

text \<open>
  Claim C3. A batch of four rows is loaded into an empty chunk with eight slots by one
  work-group of four lanes, with helpers that raise no error. Whatever \<^verbatim>\<open>kcs_offset\<close> held
  before, the status the kernel reports is \<^verbatim>\<open>StromError_DataStoreNoSpace\<close>, although the batch
  fits; and where \<^verbatim>\<open>kcs_offset\<close> held 0 the four rows are in their slots and the row count
  is still 0.
\<close>

theorem setup_chunk_rs_fitting_batch_nospace:
  "(\<forall>g. map_option status (gpusort_setup_chunk_rs plain_helpers 0 0 4 g [11, 12, 13, 14] 4 empty_chunk8)
          = Some StromError_DataStoreNoSpace)
   \<and> gpusort_setup_chunk_rs plain_helpers 0 0 4 0 [11, 12, 13, 14] 4 empty_chunk8
       = Some (empty_chunk8\<lparr>coldata := [11, 12, 13, 14, 0, 0, 0, 0],
                 result_index := [0, 1, 2, 3, 0, 0, 0, 0],
                 status := StromError_DataStoreNoSpace\<rparr>)"
proof -
  have 1: "map_option status (gpusort_setup_chunk_rs plain_helpers 0 0 4 g [11, 12, 13, 14] 4 empty_chunk8)
          = Some StromError_DataStoreNoSpace" for g
    by (simp add: gpusort_setup_chunk_rs_def setup_chunk_reserve_def atomic_and_def
          setup_chunk_lane_def plain_helpers_def empty_chunk8_def Let_def upt_rec)
  have 2: "gpusort_setup_chunk_rs plain_helpers 0 0 4 0 [11, 12, 13, 14] 4 empty_chunk8
       = Some (empty_chunk8\<lparr>coldata := [11, 12, 13, 14, 0, 0, 0, 0],
                 result_index := [0, 1, 2, 3, 0, 0, 0, 0],
                 status := StromError_DataStoreNoSpace\<rparr>)"
    by code_simp
  from 1 2 show ?thesis by blast
qed

text \<open>
  Claim C5. Two work-groups of four lanes load rows 0 to 3 and 4 to 7 of a batch of nine
  rows into an empty chunk. \<^verbatim>\<open>atomic_and\<close> hands both the offset 0 and leaves the row count
  at 0: the second group writes its rows over the first group's, in the same slots.
\<close>

theorem setup_chunk_rs_groups_overlap:
  "(\<forall>g. setup_chunk_reserve 0 4 g 9 0 = (0, 4, 0))
   \<and> (\<forall>g. setup_chunk_reserve 4 4 g 9 0 = (0, 4, 0))
   \<and> gpusort_setup_chunk_rs plain_helpers 0 0 4 0 batch9 9 empty_chunk8
       = Some (empty_chunk8\<lparr>coldata := [11, 12, 13, 14, 0, 0, 0, 0],
                 result_index := [0, 1, 2, 3, 0, 0, 0, 0],
                 status := StromError_DataStoreNoSpace\<rparr>)
   \<and> gpusort_setup_chunk_rs plain_helpers 0 4 4 0 batch9 9
         (empty_chunk8\<lparr>coldata := [11, 12, 13, 14, 0, 0, 0, 0],
                 result_index := [0, 1, 2, 3, 0, 0, 0, 0],
                 status := StromError_DataStoreNoSpace\<rparr>)
       = Some (empty_chunk8\<lparr>coldata := [15, 16, 17, 18, 0, 0, 0, 0],
                 result_index := [0, 1, 2, 3, 0, 0, 0, 0],
                 status := StromError_DataStoreNoSpace\<rparr>)"
proof -
  have 1: "setup_chunk_reserve 0 4 g 9 0 = (0, 4, 0)" for g
    by (simp add: setup_chunk_reserve_def atomic_and_def)
  have 2: "setup_chunk_reserve 4 4 g 9 0 = (0, 4, 0)" for g
    by (simp add: setup_chunk_reserve_def atomic_and_def)
  have 3: "gpusort_setup_chunk_rs plain_helpers 0 0 4 0 batch9 9 empty_chunk8
       = Some (empty_chunk8\<lparr>coldata := [11, 12, 13, 14, 0, 0, 0, 0],
                 result_index := [0, 1, 2, 3, 0, 0, 0, 0],
                 status := StromError_DataStoreNoSpace\<rparr>)"
    by code_simp
  have 4: "gpusort_setup_chunk_rs plain_helpers 0 4 4 0 batch9 9
         (empty_chunk8\<lparr>coldata := [11, 12, 13, 14, 0, 0, 0, 0],
                 result_index := [0, 1, 2, 3, 0, 0, 0, 0],
                 status := StromError_DataStoreNoSpace\<rparr>)
       = Some (empty_chunk8\<lparr>coldata := [15, 16, 17, 18, 0, 0, 0, 0],
                 result_index := [0, 1, 2, 3, 0, 0, 0, 0],
                 status := StromError_DataStoreNoSpace\<rparr>)"
    by code_simp
  from 1 2 3 4 show ?thesis by blast
qed

section \<open>The loads and the stores of \<^verbatim>\<open>gpusort_set_record\<close>\<close>

text \<open>
  \<^verbatim>\<open>gpusort_set_record\<close> is its loads followed by its stores, and a lane is its head followed
  by its tail.
\<close>

lemma gpusort_set_record_reads_writes:
  "gpusort_set_record c2c index N nrowsDst0 st errcode =
     (case gpusort_set_record_reads index N nrowsDst0 st of
        None \<Rightarrow> None
      | Some rd \<Rightarrow> gpusort_set_record_writes c2c index N nrowsDst0 rd st errcode)"
proof (cases "vread (cl_int_div N 2) (result_index (x_chunk st)) (result_index (y_chunk st)) index")
  case None
  then show ?thesis
    by (simp add: gpusort_set_record_def gpusort_set_record_reads_def Let_def)
next
  case (Some posSrc)
  note defs = gpusort_set_record_def gpusort_set_record_reads_def gpusort_set_record_writes_def Let_def
  note eval = if_True if_False option.case prod.case fst_conv snd_conv simp_thms
  let ?c = "if index <s nrowsDst0 then index else index - nrowsDst0"
  consider (full) "?c = cl_int_div N 2 - 1 \<and> posSrc <s N"
    | (row) "\<not> (?c = cl_int_div N 2 - 1 \<and> posSrc <s N)" "\<not> N \<le>s posSrc"
    | (first) "\<not> (?c = cl_int_div N 2 - 1 \<and> posSrc <s N)" "N \<le>s posSrc" "\<not> 0 <s ?c"
    | (prev) "\<not> (?c = cl_int_div N 2 - 1 \<and> posSrc <s N)" "N \<le>s posSrc" "0 <s ?c"
    by blast
  then show ?thesis
  proof cases
    case full
    show ?thesis unfolding defs by (simp only: Some full eval)
  next
    case row
    show ?thesis unfolding defs by (simp only: Some row eval)
  next
    case first
    show ?thesis unfolding defs by (simp only: Some first eval)
  next
    case prev
    show ?thesis
    proof (cases "vread (cl_int_div N 2) (result_index (x_chunk st)) (result_index (y_chunk st)) (index - 1)")
      case None
      show ?thesis unfolding defs by (simp only: Some None prev eval)
    next
      case (Some posPrev) note sp = this
      show ?thesis
      proof (cases "N \<le>s posPrev")
        case True
        show ?thesis unfolding defs
          by (simp only: \<open>vread _ _ _ index = Some posSrc\<close> sp prev True eval)
      next
        case False
        show ?thesis unfolding defs
          by (simp only: \<open>vread _ _ _ index = Some posSrc\<close> sp prev False eval)
      qed
    qed
  qed
qed

lemma run_gpusort_multi_head_tail:
  "run_gpusort_multi cmp c2c reversing unitsz N st threadID errcode =
     (case run_gpusort_multi_head cmp reversing unitsz N st threadID errcode of
        None \<Rightarrow> None
      | Some (st2, errcode2, rd) \<Rightarrow> run_gpusort_multi_tail c2c reversing unitsz N rd st2 threadID errcode2)"
proof -
  note defs = run_gpusort_multi_def run_gpusort_multi_head_def run_gpusort_multi_tail_def Let_def
  note eval = if_True if_False option.case prod.case simp_thms
  let ?idx0 = "lane_idx0 unitsz threadID"
  let ?idx1 = "lane_idx1 reversing unitsz ?idx0"
  let ?N2 = "cl_int_div N 2"
  show ?thesis
  proof (cases "unitsz div 2 = 0")
    case True
    show ?thesis unfolding defs by (simp only: True eval)
  next
    case h: False
    show ?thesis
    proof (cases "?N2 \<le>s threadID")
      case True
      show ?thesis unfolding defs by (simp only: h True eval)
    next
      case a: False
      show ?thesis
      proof (cases "if reversing then multi_renumber N threadID ?idx1 st else Some st")
        case None
        show ?thesis unfolding defs by (simp only: h a None eval)
      next
        case (Some st1) note s1 = this
        show ?thesis
        proof (cases "multi_compare_swap cmp N ?idx0 ?idx1 st1 errcode")
          case None
          show ?thesis unfolding defs by (simp only: h a s1 None eval)
        next
          case (Some p)
          obtain st2 errcode2 where p: "p = (st2, errcode2)" by (cases p)
          note s2 = Some [unfolded p]
          show ?thesis
          proof (cases "unitsz = 2")
            case False
            show ?thesis unfolding defs by (simp only: h a s1 s2 False eval)
          next
            case True
            then have u: "(unitsz = 2) = True" by simp
            show ?thesis
            proof (cases "gpusort_set_record_reads ?idx0 N ?N2 st2")
              case None
              show ?thesis unfolding defs
                by (simp only: h a s1 s2 u None eval gpusort_set_record_reads_writes [of c2c ?idx0])
            next
              case (Some rd)
              show ?thesis unfolding defs
                by (simp only: h a s1 s2 u Some eval gpusort_set_record_reads_writes [of c2c ?idx0])
            qed
          qed
        qed
      qed
    qed
  qed
qed

lemma gpusort_multi_head_tail:
  "gpusort_multi cmp c2c mergesort_unitsz N st threadID =
     (let reversing = (mergesort_unitsz <s 0);
          unitsz = (if mergesort_unitsz <s 0 then cl_shl 1 (- mergesort_unitsz)
                    else cl_shl 1 mergesort_unitsz)
      in case run_gpusort_multi_head cmp reversing unitsz N st threadID StromError_Success of
           None \<Rightarrow> None
         | Some (st2, errcode2, rd) \<Rightarrow>
             map_option fst (run_gpusort_multi_tail c2c reversing unitsz N rd st2 threadID errcode2))"
  unfolding gpusort_multi_def Let_def
  by (simp only: run_gpusort_multi_head_tail [of cmp c2c] split: option.split prod.split) simp

section \<open>Claims about merging\<close>

text \<open>
  Claim C8, as amended. When both entries of a lane's pair are below \<open>N\<close> and the comparator
  returns 0 for them, the compare and swap part of \<^verbatim>\<open>run_gpusort_multi\<close> leaves the chunks as
  they are: no swap occurs on a tie, so the entry at \<open>idx0\<close> stays before the entry at
  \<open>idx1\<close>, whichever input each came from.
\<close>

theorem multi_compare_swap_tie:
  assumes "vread (cl_int_div N 2) (result_index (x_chunk st)) (result_index (y_chunk st)) idx0 = Some pos0"
    and "vread (cl_int_div N 2) (result_index (x_chunk st)) (result_index (y_chunk st)) idx1 = Some pos1"
    and "pos0 <s N" "pos1 <s N"
    and "snd (cmp errcode
           (coldata (if pos0 <s cl_int_div N 2 then x_chunk st else y_chunk st))
           (ktoast (if pos0 <s cl_int_div N 2 then x_chunk st else y_chunk st))
           (if pos0 <s cl_int_div N 2 then pos0 else pos0 - cl_int_div N 2)
           (coldata (if pos1 <s cl_int_div N 2 then x_chunk st else y_chunk st))
           (ktoast (if pos1 <s cl_int_div N 2 then x_chunk st else y_chunk st))
           (if pos1 <s cl_int_div N 2 then pos1 else pos1 - cl_int_div N 2)) = 0"
  shows "map_option fst (multi_compare_swap cmp N idx0 idx1 st errcode) = Some st"
proof -
  let ?N2 = "cl_int_div N 2"
  let ?c0 = "if pos0 <s ?N2 then x_chunk st else y_chunk st"
  let ?c1 = "if pos1 <s ?N2 then x_chunk st else y_chunk st"
  let ?p0 = "if pos0 <s ?N2 then pos0 else pos0 - ?N2"
  let ?p1 = "if pos1 <s ?N2 then pos1 else pos1 - ?N2"
  obtain e' rv where c: "cmp errcode (coldata ?c0) (ktoast ?c0) ?p0 (coldata ?c1) (ktoast ?c1) ?p1 = (e', rv)"
    by (cases "cmp errcode (coldata ?c0) (ktoast ?c0) ?p0 (coldata ?c1) (ktoast ?c1) ?p1")
  then have rv: "rv = 0" using assms(5) by simp
  have n: "\<not> N \<le>s pos0" "\<not> N \<le>s pos1" using assms(3,4) by (simp_all add: signed.not_le)
  show ?thesis
    unfolding multi_compare_swap_def Let_def assms(1,2)
    using n c rv by simp
qed

theorem multi_compare_swap_tie_witness:
  "vread (cl_int_div 8 2) (result_index (x_chunk tie_chunks_before_last_pass))
     (result_index (y_chunk tie_chunks_before_last_pass)) 2 = Some 5
   \<and> vread (cl_int_div 8 2) (result_index (x_chunk tie_chunks_before_last_pass))
     (result_index (y_chunk tie_chunks_before_last_pass)) 3 = Some 1
   \<and> map_option fst (multi_compare_swap pair_comp 8 2 3 tie_chunks_before_last_pass StromError_Success)
       = Some tie_chunks_before_last_pass"
proof -
  let ?st = tie_chunks_before_last_pass
  have 1: "vread (cl_int_div 8 2) (result_index (x_chunk ?st)) (result_index (y_chunk ?st)) 2 = Some 5"
    by code_simp
  have 2: "vread (cl_int_div 8 2) (result_index (x_chunk ?st)) (result_index (y_chunk ?st)) 3 = Some 1"
    by code_simp
  have 3: "(5 :: cl_int) <s 8" "(1 :: cl_int) <s 8" by code_simp+
  have 4: "snd (pair_comp StromError_Success
           (coldata (if 5 <s cl_int_div 8 2 then x_chunk ?st else y_chunk ?st))
           (ktoast (if 5 <s cl_int_div 8 2 then x_chunk ?st else y_chunk ?st))
           (if 5 <s cl_int_div 8 2 then 5 else 5 - cl_int_div 8 2)
           (coldata (if 1 <s cl_int_div 8 2 then x_chunk ?st else y_chunk ?st))
           (ktoast (if 1 <s cl_int_div 8 2 then x_chunk ?st else y_chunk ?st))
           (if 1 <s cl_int_div 8 2 then 1 else 1 - cl_int_div 8 2)) = 0"
    by code_simp
  from multi_compare_swap_tie [of 8 ?st 2 5 3 1 pair_comp StromError_Success, OF 1 2 3 4] 1 2
  show ?thesis by simp
qed

text \<open>
  The claim as stated fails. With \<open>N = 8\<close>, the passes with unit sizes 8 (reversing) and 4
  take the sorted chunks \<open>x\<close> (keys 1, 1, 3, 3) and \<open>y\<close> (keys 0, 1, 1, 2) to a sequence whose
  slots 2 and 3 hold row 1 of \<open>y\<close> (entry 5) and row 1 of \<open>x\<close> (entry 1). Lane 1 of the last
  pass compares the two, the comparator returns 0, and the merged output has the row of \<open>y\<close> (record id
  201) before the row of \<open>x\<close> (record id 101).
\<close>

theorem merge_tie_y_before_x:
  "gpusort_multi_passes pair_comp pair_copy 8 4 [- 3, 2] tie_chunks = Some tie_chunks_before_last_pass
   \<and> lane_idx0 2 1 = 2 \<and> lane_idx1 False 2 2 = 3
   \<and> vread 4 (result_index (x_chunk tie_chunks_before_last_pass))
        (result_index (y_chunk tie_chunks_before_last_pass)) 2 = Some 5
   \<and> vread 4 (result_index (x_chunk tie_chunks_before_last_pass))
        (result_index (y_chunk tie_chunks_before_last_pass)) 3 = Some 1
   \<and> snd (pair_comp StromError_Success (coldata (y_chunk tie_chunks_before_last_pass)) () 1
            (coldata (x_chunk tie_chunks_before_last_pass)) () 1) = 0
   \<and> map_option (\<lambda>st. coldata (z_chunk0 st))
         (gpusort_multi_passes pair_comp pair_copy 8 4 [1] tie_chunks_before_last_pass)
       = Some [(0, 200), (1, 100), (1, 201), (1, 101)]"
  by code_simp

text \<open>
  Claim C7. \<^verbatim>\<open>gpusort_set_record\<close> stores a row count at the first sentinel of a destination's
  half, which it recognises by the entry before it (\<^verbatim>\<open>posPrev\<close>) not being a sentinel. For
  \<^verbatim>\<open>index = idx0\<close> that entry is in a slot of the lane before, which swaps its two slots in the
  same launch. With \<open>N = 8\<close> and sorted chunks \<open>x\<close> (keys 1, 5, 9) and \<open>y\<close> (keys 3, 7), the
  passes with unit sizes 8 (reversing) and 4 leave a sentinel in slot 4 and the row with key
  9 in slot 5. In the last pass lane 2 swaps the two, and lane 3 owns slots 6 and 7, both
  sentinels. When the four lanes run one after the other, the row counts of the two
  destinations are 4 and 1, the numbers of non-sentinel positions in the two halves. When
  lane 3 loads slot 5 before lane 2 has stored its swap, and stores the row count after lane
  2 has stored its own, the second destination ends with the row count 2 and one
  non-sentinel position.
\<close>

theorem merge_row_count_after_early_predecessor_read:
  "gpusort_multi_passes pair_comp pair_copy 8 4 [- 3, 2] odd_chunks = Some odd_chunks_before_last_pass
   \<and> map_option (\<lambda>st. ((nrows (z_chunk0 st), nrows (z_chunk1 st)), rows_mapped 8 st))
        (gpusort_multi_lanes pair_comp pair_copy 1 8 [0, 1, 2, 3] odd_chunks_before_last_pass)
       = Some ((4, 1), (4, 1))
   \<and> map_option (\<lambda>st. ((nrows (z_chunk0 st), nrows (z_chunk1 st)), rows_mapped 8 st))
        (case gpusort_multi_lanes pair_comp pair_copy 1 8 [0, 1] odd_chunks_before_last_pass of
           None \<Rightarrow> None
         | Some st \<Rightarrow> gpusort_multi_overtaken pair_comp pair_copy 1 8 st 2 3)
       = Some ((4, 2), (4, 1))"
  by code_simp

text \<open>
  Claim C2. The chunks \<open>x\<close> with keys 3, 7 and \<open>y\<close> with keys 1, 5, 9: with the value 8 for
  \<^verbatim>\<open>N\<close> the three passes write the keys 1, 3, 5, 7 to the first destination and 9 to the
  second; with the value 0 the destinations are left as they were, empty.
\<close>

theorem merge_output_rests_on_unassigned_N:
  "map_option (\<lambda>st. (take (unat (nrows (z_chunk0 st))) (map fst (coldata (z_chunk0 st))),
                      take (unat (nrows (z_chunk1 st))) (map fst (coldata (z_chunk1 st)))))
     (gpusort_multi_passes pair_comp pair_copy 8 4 [- 3, 2, 1] spec_example_chunks)
     = Some ([1, 3, 5, 7], [9])
   \<and> map_option (\<lambda>st. (z_chunk0 st, z_chunk1 st))
     (gpusort_multi_passes pair_comp pair_copy 0 4 [- 3, 2, 1] spec_example_chunks)
     = Some (z_chunk0 spec_example_chunks, z_chunk1 spec_example_chunks)"
  by code_simp

end
